theory Spec2Isabelle
  imports
    Main
    "HOL-Library.AList"
    "HOL-Library.Char_ord"
    "HOL-Library.List_Lexorder"
    "HOL-Library.Multiset"
begin

section \<open>Quiz storage: synchronisation and duplicate removal\<close>

text \<open>
  A shallow embedding of the class \<^verbatim>\<open>MemStorage\<close> of \<^verbatim>\<open>src/dist/index.js\<close>
  (lines 79--330): the quiz methods, the content hash, the three passes of
  \<^verbatim>\<open>removeDuplicateQuizzes\<close> and \<^verbatim>\<open>syncQuizzes\<close>.
\<close>

subsection \<open>Strings\<close>

text \<open>
  A JavaScript string is a sequence of UTF-16 code units. The model has the strings whose
  code units are below \<^verbatim>\<open>0x100\<close> (ASCII and the Latin-1 supplement), as \<^typ>\<open>string\<close>: a
  character of the model is the code unit with the same number.

  \<^verbatim>\<open>String.prototype.toLowerCase\<close> follows the Unicode case mapping. On these code units
  it maps \<^verbatim>\<open>A\<close>..\<^verbatim>\<open>Z\<close> to \<^verbatim>\<open>a\<close>..\<^verbatim>\<open>z\<close> and the capital letters \<^verbatim>\<open>U+00C0\<close>..\<^verbatim>\<open>U+00DE\<close>, without
  the multiplication sign \<^verbatim>\<open>U+00D7\<close>, to \<^verbatim>\<open>U+00E0\<close>..\<^verbatim>\<open>U+00FE\<close>; it leaves every other code
  unit as it is, character by character.
\<close>

definition upperCaseLetters :: string where
  "upperCaseLetters =
     ''ABCDEFGHIJKLMNOPQRSTUVWXYZ''
     @ [CHR 0xC0, CHR 0xC1, CHR 0xC2, CHR 0xC3, CHR 0xC4, CHR 0xC5, CHR 0xC6, CHR 0xC7,
      CHR 0xC8, CHR 0xC9, CHR 0xCA, CHR 0xCB, CHR 0xCC, CHR 0xCD, CHR 0xCE, CHR 0xCF,
      CHR 0xD0, CHR 0xD1, CHR 0xD2, CHR 0xD3, CHR 0xD4, CHR 0xD5, CHR 0xD6, CHR 0xD8,
      CHR 0xD9, CHR 0xDA, CHR 0xDB, CHR 0xDC, CHR 0xDD, CHR 0xDE]"

definition lowerCaseLetters :: string where
  "lowerCaseLetters =
     ''abcdefghijklmnopqrstuvwxyz''
     @ [CHR 0xE0, CHR 0xE1, CHR 0xE2, CHR 0xE3, CHR 0xE4, CHR 0xE5, CHR 0xE6, CHR 0xE7,
      CHR 0xE8, CHR 0xE9, CHR 0xEA, CHR 0xEB, CHR 0xEC, CHR 0xED, CHR 0xEE, CHR 0xEF,
      CHR 0xF0, CHR 0xF1, CHR 0xF2, CHR 0xF3, CHR 0xF4, CHR 0xF5, CHR 0xF6, CHR 0xF8,
      CHR 0xF9, CHR 0xFA, CHR 0xFB, CHR 0xFC, CHR 0xFD, CHR 0xFE]"

definition toLowerCase_char :: "char \<Rightarrow> char" where
  "toLowerCase_char c =
     (case map_of (zip upperCaseLetters lowerCaseLetters) c of
        Some l \<Rightarrow> l
      | None \<Rightarrow> c)"

definition toLowerCase :: "string \<Rightarrow> string" where
  "toLowerCase s = map toLowerCase_char s"

text \<open>
  \<^verbatim>\<open>String.prototype.trim\<close> strips the white space and the line terminators of ECMAScript
  from both ends. Below \<^verbatim>\<open>0x100\<close> these are the tab, the line feed, the vertical tab, the
  form feed, the carriage return, the space and the no-break space \<^verbatim>\<open>U+00A0\<close>.
\<close>

definition isWhiteSpace :: "char \<Rightarrow> bool" where
  "isWhiteSpace c =
     (c = CHR 0x09 \<or> c = CHR 0x0A \<or> c = CHR 0x0B \<or> c = CHR 0x0C \<or> c = CHR 0x0D \<or> c = CHR 0x20
      \<or> c = CHR 0xA0)"

definition trim :: "string \<Rightarrow> string" where
  "trim s = rev (dropWhile isWhiteSpace (rev (dropWhile isWhiteSpace s)))"

text \<open>The expression \<^verbatim>\<open>x.toLowerCase().trim()\<close>, used for titles, prompts, options and answers.\<close>

definition normalized :: "string \<Rightarrow> string" where
  "normalized s = trim (toLowerCase s)"

subsection \<open>Data model\<close>

text \<open>
  A question (\<^verbatim>\<open>QuestionSchema\<close>, lines 31--38). The description and the image lists are
  read by no method of the storage class and are left out.
\<close>

record quizQuestion =
  question :: string
  options :: "string list"
  correctAnswer :: string

text \<open>
  A quiz as a client submits it (\<^verbatim>\<open>InsertQuiz\<close>, lines 65--69) and as it is stored
  (\<^verbatim>\<open>Quiz\<close>, the same object with its \<^verbatim>\<open>id\<close>). A field the object may lack is an
  option, \<^term>\<open>None\<close> for \<^verbatim>\<open>undefined\<close>. \<^verbatim>\<open>createdAt\<close> is a \<^verbatim>\<open>Date\<close>, modelled by its
  \<^verbatim>\<open>getTime()\<close>, the milliseconds since the epoch. The fields that no storage method
  reads (description, timer, category, history, lastTaken, password, createdBy) are
  left out.
\<close>

record insertQuiz =
  uniqueId :: "string option"
  title :: string
  questions :: "quizQuestion list"
  isPublic :: "bool option"
  version :: "int option"
  createdAt :: "int option"

record quiz = insertQuiz +
  id' :: nat

text \<open>
  The argument of \<^verbatim>\<open>updateQuiz\<close> (\<^verbatim>\<open>Partial<InsertQuiz>\<close>): every key may be absent.
\<close>

record quizUpdate =
  u_uniqueId :: "string option"
  u_title :: "string option"
  u_questions :: "quizQuestion list option"
  u_isPublic :: "bool option"
  u_version :: "int option"
  u_createdAt :: "int option"

text \<open>
  JavaScript truthiness of the optional fields: a string is falsy when it is absent or
  empty, a number when it is absent or zero; a \<^verbatim>\<open>Date\<close> object is truthy whenever it is
  present; an absent boolean is falsy.
\<close>

definition truthy_string :: "string option \<Rightarrow> bool" where
  "truthy_string s = (case s of None \<Rightarrow> False | Some x \<Rightarrow> x \<noteq> [])"

definition truthy_number :: "int option \<Rightarrow> bool" where
  "truthy_number n = (case n of None \<Rightarrow> False | Some x \<Rightarrow> x \<noteq> 0)"

definition truthy_date :: "int option \<Rightarrow> bool" where
  "truthy_date d = (case d of None \<Rightarrow> False | Some x \<Rightarrow> True)"

definition truthy_bool :: "bool option \<Rightarrow> bool" where
  "truthy_bool b = (case b of None \<Rightarrow> False | Some x \<Rightarrow> x)"

subsection \<open>The tie-break\<close>

text \<open>
  Lines 199, 220 and 272 hold the same expression, on \<^verbatim>\<open>(quiz, existingQuiz)\<close> in the
  first two passes and on \<^verbatim>\<open>(quiz1, quiz2)\<close> in the third:
  \<^verbatim>\<open>a.version && b.version && a.version > b.version ||
  a.createdAt && b.createdAt && new Date(a.createdAt).getTime() > new Date(b.createdAt).getTime()\<close>.
\<close>

definition keepNew :: "quiz \<Rightarrow> quiz \<Rightarrow> bool" where
  "keepNew a b =
     ((truthy_number (version a) \<and> truthy_number (version b) \<and> the (version a) > the (version b))
      \<or> (truthy_date (createdAt a) \<and> truthy_date (createdAt b)
          \<and> the (createdAt a) > the (createdAt b)))"

subsection \<open>Similarity of two quizzes (pass 3)\<close>

text \<open>The condition of line 263 on a question of each quiz.\<close>

definition questionsMatch :: "quizQuestion \<Rightarrow> quizQuestion \<Rightarrow> bool" where
  "questionsMatch q1 q2 =
     (normalized (question q1) = normalized (question q2)
      \<or> normalized (correctAnswer q1) = normalized (correctAnswer q2))"

text \<open>The inner loop of lines 262--267: does some question of the second quiz match?\<close>

fun hasMatch :: "quizQuestion \<Rightarrow> quizQuestion list \<Rightarrow> bool" where
  "hasMatch q1 [] = False"
| "hasMatch q1 (q2 # qs2) = (if questionsMatch q1 q2 then True else hasMatch q1 qs2)"

text \<open>The outer loop of lines 260--268: \<^verbatim>\<open>matchCount\<close> after the loop.\<close>

fun matchCount :: "quizQuestion list \<Rightarrow> quizQuestion list \<Rightarrow> nat" where
  "matchCount [] qs2 = 0"
| "matchCount (q1 # qs1) qs2 = (if hasMatch q1 qs2 then 1 else 0) + matchCount qs1 qs2"

text \<open>Line 255: two quizzes that both carry a \<^verbatim>\<open>uniqueId\<close>, and different ones, are not compared.\<close>

definition distinctUniqueIds :: "quiz \<Rightarrow> quiz \<Rightarrow> bool" where
  "distinctUniqueIds quiz1 quiz2 =
     (truthy_string (uniqueId quiz1) \<and> truthy_string (uniqueId quiz2)
      \<and> uniqueId quiz1 \<noteq> uniqueId quiz2)"

text \<open>
  Lines 258--270. Both \<^verbatim>\<open>questions\<close> are arrays, which are truthy. The threshold is
  \<^verbatim>\<open>Math.min(n1, n2) * 0.8\<close> in double precision; for the counts an array can have,
  \<^verbatim>\<open>matchCount >= threshold\<close> holds exactly when \<open>4 * min n1 n2 \<le> 5 * matchCount\<close>: the
  product is exact whenever \<open>0.8 * min n1 n2\<close> is an integer (the relative error of
  the double \<^verbatim>\<open>0.8\<close> is \<open>2\<^sup>-\<^sup>5\<^sup>4\<close>, under half a unit in the last place), and lies
  strictly between two integers otherwise.
\<close>

definition similarQuestions :: "quiz \<Rightarrow> quiz \<Rightarrow> bool" where
  "similarQuestions quiz1 quiz2 =
     (let n1 = length (questions quiz1); n2 = length (questions quiz2) in
      (if n1 \<le> n2 then n2 - n1 else n1 - n2) \<le> 1
      \<and> 4 * min n1 n2 \<le> 5 * matchCount (questions quiz1) (questions quiz2))"

text \<open>The pair is a duplicate for pass 3 when it is compared and similar.\<close>

definition isDuplicatePair :: "quiz \<Rightarrow> quiz \<Rightarrow> bool" where
  "isDuplicatePair quiz1 quiz2 = (\<not> distinctUniqueIds quiz1 quiz2 \<and> similarQuestions quiz1 quiz2)"

subsection \<open>The content hash\<close>

text \<open>\<^verbatim>\<open>Array.prototype.join\<close> on strings.\<close>

fun join :: "string \<Rightarrow> string list \<Rightarrow> string" where
  "join sep [] = []"
| "join sep [x] = x"
| "join sep (x # y # ys) = x @ sep @ join sep (y # ys)"

text \<open>A number in a template string: its decimal digits.\<close>

fun decimal :: "nat \<Rightarrow> string" where
  "decimal n =
     (if n < 10 then [''0123456789'' ! n]
      else decimal (n div 10) @ [''0123456789'' ! (n mod 10)])"

declare decimal.simps [simp del]

text \<open>
  \<^verbatim>\<open>JSON.stringify\<close> of a string: the quotation mark and the backslash are escaped with
  a backslash, the control characters below \<^verbatim>\<open>0x20\<close> are written \<^verbatim>\<open>\b\<close>, \<^verbatim>\<open>\t\<close>, \<^verbatim>\<open>\n\<close>,
  \<^verbatim>\<open>\f\<close>, \<^verbatim>\<open>\r\<close> or \<^verbatim>\<open>\u00XX\<close> (lower-case hexadecimal), every other character stands
  for itself. \<^term>\<open>CHR 0x22\<close> is the quotation mark and \<^term>\<open>CHR 0x5C\<close> the backslash.
\<close>

definition shortEscapes :: "(char \<times> char) list" where
  "shortEscapes =
     [(CHR 0x08, CHR ''b''), (CHR 0x09, CHR ''t''), (CHR 0x0A, CHR ''n''),
      (CHR 0x0C, CHR ''f''), (CHR 0x0D, CHR ''r'')]"

definition controlHex :: "(char \<times> string) list" where
  "controlHex =
     [
      (CHR 0x00, ''00''), (CHR 0x01, ''01''), (CHR 0x02, ''02''), (CHR 0x03, ''03''),
      (CHR 0x04, ''04''), (CHR 0x05, ''05''), (CHR 0x06, ''06''), (CHR 0x07, ''07''),
      (CHR 0x08, ''08''), (CHR 0x09, ''09''), (CHR 0x0A, ''0a''), (CHR 0x0B, ''0b''),
      (CHR 0x0C, ''0c''), (CHR 0x0D, ''0d''), (CHR 0x0E, ''0e''), (CHR 0x0F, ''0f''),
      (CHR 0x10, ''10''), (CHR 0x11, ''11''), (CHR 0x12, ''12''), (CHR 0x13, ''13''),
      (CHR 0x14, ''14''), (CHR 0x15, ''15''), (CHR 0x16, ''16''), (CHR 0x17, ''17''),
      (CHR 0x18, ''18''), (CHR 0x19, ''19''), (CHR 0x1A, ''1a''), (CHR 0x1B, ''1b''),
      (CHR 0x1C, ''1c''), (CHR 0x1D, ''1d''), (CHR 0x1E, ''1e''), (CHR 0x1F, ''1f'')]"

definition jsonEscape_char :: "char \<Rightarrow> string" where
  "jsonEscape_char c =
     (if c = CHR 0x22 \<or> c = CHR 0x5C then [CHR 0x5C, c]
      else case map_of shortEscapes c of
        Some e \<Rightarrow> [CHR 0x5C, e]
      | None \<Rightarrow>
          (case map_of controlHex c of
             Some h \<Rightarrow> CHR 0x5C # ''u00'' @ h
           | None \<Rightarrow> [c]))"

definition jsonString :: "string \<Rightarrow> string" where
  "jsonString s = CHR 0x22 # concat (map jsonEscape_char s) @ [CHR 0x22]"

text \<open>
  The object built for each question at lines 170--174: the normalized prompt, the
  normalized options sorted (the default sort of strings, by code units) and joined with
  \<^verbatim>\<open>|\<close>, and the normalized answer. The \<^verbatim>\<open>typeof\<close> and \<^verbatim>\<open>Array.isArray\<close> tests hold by the
  types of the fields.
\<close>

record questionData =
  d_question :: string
  d_options :: string
  d_correctAnswer :: string

definition questionData :: "quizQuestion \<Rightarrow> questionData" where
  "questionData q =
     \<lparr>d_question = normalized (question q),
      d_options = join ''|'' (sort (map normalized (options q))),
      d_correctAnswer = normalized (correctAnswer q)\<rparr>"

text \<open>\<^verbatim>\<open>JSON.stringify\<close> of such an object (its keys in the order of creation) and of the array.\<close>

definition jsonObject :: "questionData \<Rightarrow> string" where
  "jsonObject d =
     ''{'' @ jsonString ''question'' @ '':'' @ jsonString (d_question d)
     @ '','' @ jsonString ''options'' @ '':'' @ jsonString (d_options d)
     @ '','' @ jsonString ''correctAnswer'' @ '':'' @ jsonString (d_correctAnswer d) @ ''}''"

definition jsonArray :: "questionData list \<Rightarrow> string" where
  "jsonArray ds = ''['' @ join '','' (map jsonObject ds) @ '']''"

text \<open>
  \<^verbatim>\<open>createContentHash\<close>, lines 168--179. The array is sorted with the comparator
  \<^verbatim>\<open>a.question.localeCompare(b.question)\<close>, whose order belongs to the JavaScript engine
  and its locale. It is a parameter of the model: \<open>collate\<close> gives the collation key of a
  string, and \<^verbatim>\<open>localeCompare\<close> compares the keys. \<^verbatim>\<open>Array.prototype.sort\<close> is stable, as
  \<^const>\<open>sort_key\<close> is.
\<close>

definition createContentHash :: "(string \<Rightarrow> 'k::linorder) \<Rightarrow> quiz \<Rightarrow> string" where
  "createContentHash collate quiz =
     (let titleNormalized = normalized (title quiz);
          questionsData = sort_key (\<lambda>d. collate (d_question d)) (map questionData (questions quiz))
      in titleNormalized @ '':'' @ decimal (length questionsData) @ '':'' @ jsonArray questionsData)"

subsection \<open>The storage and its quiz methods\<close>

text \<open>
  \<^verbatim>\<open>quizCollection\<close> is a JavaScript \<^verbatim>\<open>Map\<close> from ids to quizzes, which iterates in the
  order of insertion: an association list. \<^verbatim>\<open>Map.prototype.set\<close> replaces the value of a
  key where it stands or appends a new key (\<^const>\<open>AList.update\<close>), \<^verbatim>\<open>delete\<close> removes the
  key (\<^const>\<open>AList.delete\<close>) and tells whether it was there, \<^verbatim>\<open>get\<close> is \<^const>\<open>map_of\<close> and
  \<^verbatim>\<open>values()\<close> the second components. The users of the class play no part in the quiz
  methods and are left out.
\<close>

record memStorage =
  quizCollection :: "(nat \<times> quiz) list"
  quizCurrentId :: nat

definition emptyStorage :: memStorage where
  "emptyStorage = \<lparr>quizCollection = [], quizCurrentId = 1\<rparr>"

definition allValues :: "memStorage \<Rightarrow> quiz list" where
  "allValues s = map snd (quizCollection s)"

text \<open>
  What \<^verbatim>\<open>createQuiz\<close> reads from outside the storage: the result of \<^verbatim>\<open>uuidv4()\<close> and of
  \<^verbatim>\<open>new Date()\<close> in the call that assigns a given id.
\<close>

record env =
  uuidv4 :: "nat \<Rightarrow> string"
  now :: "nat \<Rightarrow> int"

definition getQuiz :: "memStorage \<Rightarrow> nat \<Rightarrow> quiz option" where
  "getQuiz s i = map_of (quizCollection s) i"

definition getQuizByUniqueId :: "memStorage \<Rightarrow> string \<Rightarrow> quiz option" where
  "getQuizByUniqueId s u = find (\<lambda>quiz. uniqueId quiz = Some u) (allValues s)"

definition getAllQuizzes :: "memStorage \<Rightarrow> quiz list" where
  "getAllQuizzes s = allValues s"

definition getPublicQuizzes :: "memStorage \<Rightarrow> quiz list" where
  "getPublicQuizzes s = filter (\<lambda>quiz. isPublic quiz = Some True) (allValues s)"

text \<open>\<^verbatim>\<open>createQuiz\<close>, lines 122--138: the new quiz and the storage after the call.\<close>

definition createQuiz :: "env \<Rightarrow> memStorage \<Rightarrow> insertQuiz \<Rightarrow> quiz \<times> memStorage" where
  "createQuiz e s quiz =
     (let i = quizCurrentId s;
          newQuiz =
            \<lparr>uniqueId = (if \<not> truthy_string (uniqueId quiz) then Some (uuidv4 e i) else uniqueId quiz),
             title = title quiz,
             questions = questions quiz,
             isPublic = isPublic quiz,
             version = (if truthy_number (version quiz) then version quiz else Some 1),
             createdAt = (if truthy_date (createdAt quiz) then createdAt quiz else Some (now e i)),
             id' = i\<rparr>
      in (newQuiz,
          \<lparr>quizCollection = AList.update i newQuiz (quizCollection s), quizCurrentId = i + 1\<rparr>))"

text \<open>
  The object \<^verbatim>\<open>{...existingQuiz, ...quizUpdate, version: ...}\<close> of lines 144--148: every key
  the update has replaces the stored one, and the version is computed from the stored
  version whatever the update says.
\<close>

definition mergeUpdate :: "quiz \<Rightarrow> quizUpdate \<Rightarrow> quiz" where
  "mergeUpdate existingQuiz quizUpdate =
     \<lparr>uniqueId = (case u_uniqueId quizUpdate of None \<Rightarrow> uniqueId existingQuiz | Some x \<Rightarrow> Some x),
      title = (case u_title quizUpdate of None \<Rightarrow> title existingQuiz | Some x \<Rightarrow> x),
      questions = (case u_questions quizUpdate of None \<Rightarrow> questions existingQuiz | Some x \<Rightarrow> x),
      isPublic = (case u_isPublic quizUpdate of None \<Rightarrow> isPublic existingQuiz | Some x \<Rightarrow> Some x),
      version =
        (if truthy_number (version existingQuiz) then Some (the (version existingQuiz) + 1)
         else Some 1),
      createdAt = (case u_createdAt quizUpdate of None \<Rightarrow> createdAt existingQuiz | Some x \<Rightarrow> Some x),
      id' = id' existingQuiz\<rparr>"

text \<open>\<^verbatim>\<open>updateQuiz\<close>, lines 139--151: \<^term>\<open>None\<close> is the \<^verbatim>\<open>undefined\<close> of an unknown id.\<close>

definition updateQuiz :: "memStorage \<Rightarrow> nat \<Rightarrow> quizUpdate \<Rightarrow> quiz option \<times> memStorage" where
  "updateQuiz s i quizUpdate =
     (case map_of (quizCollection s) i of
        None \<Rightarrow> (None, s)
      | Some existingQuiz \<Rightarrow>
          (let updatedQuiz = mergeUpdate existingQuiz quizUpdate
           in (Some updatedQuiz,
               s\<lparr>quizCollection := AList.update i updatedQuiz (quizCollection s)\<rparr>)))"

text \<open>\<^verbatim>\<open>deleteQuiz\<close>, lines 152--154.\<close>

definition deleteQuiz :: "memStorage \<Rightarrow> nat \<Rightarrow> bool \<times> memStorage" where
  "deleteQuiz s i =
     (map_of (quizCollection s) i \<noteq> None,
      s\<lparr>quizCollection := AList.delete i (quizCollection s)\<rparr>)"

text \<open>\<^verbatim>\<open>deletePrivateQuizzes\<close>, lines 156--166: the count and the storage after the loop.\<close>

definition deletePrivateStep :: "quiz \<Rightarrow> nat \<times> memStorage \<Rightarrow> nat \<times> memStorage" where
  "deletePrivateStep quiz cs =
     (case deleteQuiz (snd cs) (id' quiz) of
        (deleted, s') \<Rightarrow> (if deleted then fst cs + 1 else fst cs, s'))"

definition deletePrivateQuizzes :: "memStorage \<Rightarrow> nat \<times> memStorage" where
  "deletePrivateQuizzes s =
     (let privateQuizzes = filter (\<lambda>quiz. \<not> truthy_bool (isPublic quiz)) (allValues s)
      in fold deletePrivateStep privateQuizzes (0, s))"

subsection \<open>Synchronisation\<close>

text \<open>
  A submitted quiz passed to \<^verbatim>\<open>updateQuiz\<close> (line 312): the keys it has are the keys of the
  update; the title and the questions are always there.
\<close>

definition asUpdate :: "insertQuiz \<Rightarrow> quizUpdate" where
  "asUpdate quiz =
     \<lparr>u_uniqueId = uniqueId quiz, u_title = Some (title quiz), u_questions = Some (questions quiz),
      u_isPublic = isPublic quiz, u_version = version quiz, u_createdAt = createdAt quiz\<rparr>"

text \<open>The body of the first loop, lines 304--317.\<close>

definition syncPublicStep :: "env \<Rightarrow> insertQuiz \<Rightarrow> memStorage \<Rightarrow> memStorage" where
  "syncPublicStep e quizToSync s =
     (if \<not> truthy_string (uniqueId quizToSync) then s
      else case getQuizByUniqueId s (the (uniqueId quizToSync)) of
        Some existingQuiz \<Rightarrow> snd (updateQuiz s (id' existingQuiz) (asUpdate quizToSync))
      | None \<Rightarrow> snd (createQuiz e s quizToSync))"

text \<open>The body of the second loop, lines 318--326.\<close>

definition syncPrivateStep :: "insertQuiz \<Rightarrow> memStorage \<Rightarrow> memStorage" where
  "syncPrivateStep quizToSync s =
     (if \<not> truthy_bool (isPublic quizToSync) \<and> truthy_string (uniqueId quizToSync) then
        (case getQuizByUniqueId s (the (uniqueId quizToSync)) of
           Some existingQuiz \<Rightarrow> snd (deleteQuiz s (id' existingQuiz))
         | None \<Rightarrow> s)
      else s)"

text \<open>\<^verbatim>\<open>syncQuizzes\<close>, lines 301--329: the public quizzes it returns and the storage after it.\<close>

definition syncQuizzes :: "env \<Rightarrow> memStorage \<Rightarrow> insertQuiz list \<Rightarrow> quiz list \<times> memStorage" where
  "syncQuizzes e s quizzesToSync =
     (let publicQuizzesToSync = filter (\<lambda>quiz. isPublic quiz = Some True) quizzesToSync;
          s1 = fold (syncPublicStep e) publicQuizzesToSync s;
          s2 = fold syncPrivateStep quizzesToSync s1;
          s3 = snd (deletePrivateQuizzes s2)
      in (getPublicQuizzes s3, s3))"

subsection \<open>Duplicate removal\<close>

text \<open>
  The local variables of \<^verbatim>\<open>removeDuplicateQuizzes\<close> (lines 185--188 and 236). The two maps
  are only looked up and set, the two sets only tested and changed, so maps and sets of
  HOL model them. \<^verbatim>\<open>finalUniqueQuizIds\<close> is created at line 236 as a copy of
  \<^verbatim>\<open>uniqueQuizIds\<close>; before, the field is empty.
\<close>

record dedupState =
  uniqueIdMap :: "string \<rightharpoonup> quiz"
  contentHashMap :: "string \<rightharpoonup> quiz"
  uniqueQuizIds :: "nat set"
  finalUniqueQuizIds :: "nat set"
  duplicatesRemoved :: "quiz list"

definition initialState :: dedupState where
  "initialState =
     \<lparr>uniqueIdMap = Map.empty, contentHashMap = Map.empty, uniqueQuizIds = {},
      finalUniqueQuizIds = {}, duplicatesRemoved = []\<rparr>"

text \<open>Pass 1, the body of the loop of lines 189--211.\<close>

definition pass1Step :: "quiz \<Rightarrow> dedupState \<Rightarrow> dedupState" where
  "pass1Step quiz st =
     (if \<not> truthy_string (uniqueId quiz) then
        st\<lparr>uniqueQuizIds := insert (id' quiz) (uniqueQuizIds st)\<rparr>
      else case uniqueIdMap st (the (uniqueId quiz)) of
        None \<Rightarrow>
          st\<lparr>uniqueIdMap := (uniqueIdMap st)(the (uniqueId quiz) \<mapsto> quiz),
             uniqueQuizIds := insert (id' quiz) (uniqueQuizIds st)\<rparr>
      | Some existingQuiz \<Rightarrow>
          (if keepNew quiz existingQuiz then
             st\<lparr>uniqueQuizIds := insert (id' quiz) (uniqueQuizIds st - {id' existingQuiz}),
                uniqueIdMap := (uniqueIdMap st)(the (uniqueId quiz) \<mapsto> quiz),
                duplicatesRemoved := duplicatesRemoved st @ [existingQuiz]\<rparr>
           else st\<lparr>duplicatesRemoved := duplicatesRemoved st @ [quiz]\<rparr>))"

text \<open>Pass 2, the body of the loop of lines 212--234.\<close>

definition pass2Step :: "(string \<Rightarrow> 'k::linorder) \<Rightarrow> quiz \<Rightarrow> dedupState \<Rightarrow> dedupState" where
  "pass2Step collate quiz st =
     (if id' quiz \<notin> uniqueQuizIds st then st
      else if \<not> truthy_string (uniqueId quiz) then
        (let contentHash = createContentHash collate quiz in
         case contentHashMap st contentHash of
           None \<Rightarrow> st\<lparr>contentHashMap := (contentHashMap st)(contentHash \<mapsto> quiz)\<rparr>
         | Some existingQuiz \<Rightarrow>
             (if keepNew quiz existingQuiz then
                st\<lparr>uniqueQuizIds := insert (id' quiz) (uniqueQuizIds st - {id' existingQuiz}),
                   contentHashMap := (contentHashMap st)(contentHash \<mapsto> quiz),
                   duplicatesRemoved := duplicatesRemoved st @ [existingQuiz]\<rparr>
              else
                st\<lparr>uniqueQuizIds := uniqueQuizIds st - {id' quiz},
                   duplicatesRemoved := duplicatesRemoved st @ [quiz]\<rparr>))
      else st)"

text \<open>
  Pass 3 first groups the quizzes still kept by normalized title (lines 235--245).
  \<^verbatim>\<open>titleMap\<close> is a \<^verbatim>\<open>Map\<close> that is iterated afterwards, so it is an association list in
  the order of insertion.
\<close>

definition titleMapStep :: "nat set \<Rightarrow> quiz \<Rightarrow> (string \<times> quiz list) list \<Rightarrow> (string \<times> quiz list) list" where
  "titleMapStep kept quiz titleMap =
     (if id' quiz \<notin> kept then titleMap
      else
        (let normalizedTitle = normalized (title quiz) in
         case map_of titleMap normalizedTitle of
           None \<Rightarrow> AList.update normalizedTitle [quiz] titleMap
         | Some quizzesWithSameTitle \<Rightarrow>
             AList.update normalizedTitle (quizzesWithSameTitle @ [quiz]) titleMap))"

text \<open>
  The loop over \<^verbatim>\<open>j\<close> of lines 252--286, for a fixed \<^verbatim>\<open>quiz1\<close> and the quizzes after it in
  its group. The \<^verbatim>\<open>break\<close> of line 281 ends the loop once \<^verbatim>\<open>quiz1\<close> is removed.
\<close>

fun innerLoop :: "quiz \<Rightarrow> quiz list \<Rightarrow> dedupState \<Rightarrow> dedupState" where
  "innerLoop quiz1 [] st = st"
| "innerLoop quiz1 (quiz2 # rest) st =
     (if id' quiz2 \<notin> finalUniqueQuizIds st then innerLoop quiz1 rest st
      else if distinctUniqueIds quiz1 quiz2 then innerLoop quiz1 rest st
      else if similarQuestions quiz1 quiz2 then
        (if keepNew quiz1 quiz2 then
           innerLoop quiz1 rest
             (st\<lparr>finalUniqueQuizIds := finalUniqueQuizIds st - {id' quiz2},
                 duplicatesRemoved := duplicatesRemoved st @ [quiz2]\<rparr>)
         else
           st\<lparr>finalUniqueQuizIds := finalUniqueQuizIds st - {id' quiz1},
              duplicatesRemoved := duplicatesRemoved st @ [quiz1]\<rparr>)
      else innerLoop quiz1 rest st)"

text \<open>The loop over \<^verbatim>\<open>i\<close> of lines 249--287, on what is left of the group.\<close>

fun outerLoop :: "quiz list \<Rightarrow> dedupState \<Rightarrow> dedupState" where
  "outerLoop [] st = st"
| "outerLoop (quiz1 # rest) st =
     (if id' quiz1 \<notin> finalUniqueQuizIds st then outerLoop rest st
      else outerLoop rest (innerLoop quiz1 rest st))"

text \<open>The body of the loop over the groups, lines 246--289.\<close>

definition groupStep :: "string \<times> quiz list \<Rightarrow> dedupState \<Rightarrow> dedupState" where
  "groupStep entry st =
     (if length (snd entry) > 1 then outerLoop (snd entry) st else st)"

text \<open>The final loop, lines 290--296, on the collection and the count of deletions.\<close>

definition deleteStep :: "quiz \<Rightarrow> nat \<times> (nat \<times> quiz) list \<Rightarrow> nat \<times> (nat \<times> quiz) list" where
  "deleteStep quiz cc =
     (if map_of (snd cc) (id' quiz) \<noteq> None then (fst cc + 1, AList.delete (id' quiz) (snd cc))
      else (fst cc, AList.delete (id' quiz) (snd cc)))"

text \<open>The state after the three passes over the values of the collection.\<close>

definition findDuplicates :: "(string \<Rightarrow> 'k::linorder) \<Rightarrow> quiz list \<Rightarrow> dedupState" where
  "findDuplicates collate allQuizzes =
     (let st1 = fold pass1Step allQuizzes initialState;
          st2 = fold (pass2Step collate) allQuizzes st1;
          titleMap = fold (titleMapStep (uniqueQuizIds st2)) allQuizzes [];
          st3 = st2\<lparr>finalUniqueQuizIds := uniqueQuizIds st2\<rparr>
      in fold groupStep titleMap st3)"

text \<open>
  \<^verbatim>\<open>removeDuplicateQuizzes\<close>, lines 181--300: the count it returns and the storage after it.
\<close>

definition removeDuplicateQuizzes :: "(string \<Rightarrow> 'k::linorder) \<Rightarrow> memStorage \<Rightarrow> nat \<times> memStorage" where
  "removeDuplicateQuizzes collate s =
     (let st = findDuplicates collate (allValues s);
          result = fold deleteStep (duplicatesRemoved st) (0, quizCollection s)
      in (fst result, s\<lparr>quizCollection := snd result\<rparr>))"

subsection \<open>The invariant of the storage\<close>

text \<open>
  What the class maintains: the keys of the \<^verbatim>\<open>Map\<close> are distinct (as in every \<^verbatim>\<open>Map\<close>), each
  quiz is stored under its own \<^verbatim>\<open>id\<close> (\<^verbatim>\<open>createQuiz\<close> sets both, \<^verbatim>\<open>updateQuiz\<close> keeps both),
  and every id in use is below \<^verbatim>\<open>quizCurrentId\<close>.
\<close>

definition wf_collection :: "(nat \<times> quiz) list \<Rightarrow> bool" where
  "wf_collection c = (distinct (map fst c) \<and> list_all (\<lambda>entry. id' (snd entry) = fst entry) c)"

definition wf_storage :: "memStorage \<Rightarrow> bool" where
  "wf_storage s =
     (wf_collection (quizCollection s)
      \<and> list_all (\<lambda>entry. fst entry < quizCurrentId s) (quizCollection s))"

text \<open>The stored quizzes that carry a given \<^verbatim>\<open>uniqueId\<close>, in the order of the collection.\<close>

definition withUniqueId :: "memStorage \<Rightarrow> string \<Rightarrow> quiz list" where
  "withUniqueId s u = filter (\<lambda>quiz. uniqueId quiz = Some u) (allValues s)"

subsection \<open>The content of a question, as the specification describes it\<close>

text \<open>
  The tuple of the specification's contract for the fingerprint: the normalized prompt,
  the sorted normalized options and the normalized correct answer of a question.
\<close>

definition questionContent :: "quizQuestion \<Rightarrow> string \<times> string list \<times> string" where
  "questionContent q =
     (normalized (question q), sort (map normalized (options q)), normalized (correctAnswer q))"

text \<open>
  The number of questions on which two quizzes agree in the normalized correct answer,
  the questions taken position by position.
\<close>

definition sharedAnswers :: "quizQuestion list \<Rightarrow> quizQuestion list \<Rightarrow> nat" where
  "sharedAnswers qs1 qs2 =
     length (filter (\<lambda>pair. normalized (correctAnswer (fst pair)) = normalized (correctAnswer (snd pair)))
       (zip qs1 qs2))"

subsection \<open>Invariants of the passes of the duplicate removal\<close>

text \<open>
  After pass 1 has gone through the quizzes \<open>done\<close>: the kept ids are ids of \<open>done\<close>, the map holds
  for each \<^verbatim>\<open>uniqueId\<close> a quiz of \<open>done\<close> that carries it, every kept quiz with a \<^verbatim>\<open>uniqueId\<close> is the
  one the map holds for it, and the removed quizzes are those of \<open>done\<close> that are not kept.
\<close>

definition pass1_inv :: "quiz list \<Rightarrow> dedupState \<Rightarrow> bool" where
  "pass1_inv done st =
     (uniqueQuizIds st \<subseteq> id' ` set done
      \<and> (\<forall>u quiz. uniqueIdMap st u = Some quiz \<longrightarrow> quiz \<in> set done \<and> uniqueId quiz = Some u)
      \<and> (\<forall>quiz \<in> set done. truthy_string (uniqueId quiz) \<and> id' quiz \<in> uniqueQuizIds st
            \<longrightarrow> uniqueIdMap st (the (uniqueId quiz)) = Some quiz)
      \<and> id' ` set (duplicatesRemoved st) = id' ` set done - uniqueQuizIds st
      \<and> contentHashMap st = Map.empty)"

text \<open>
  While pass 2 goes through the quizzes \<open>all\<close>, having done \<open>done\<close>, with \<open>kept1\<close> the ids kept by
  pass 1: the kept ids are among \<open>kept1\<close>, the map holds for each content hash a quiz of \<open>done\<close>
  with this hash and without \<^verbatim>\<open>uniqueId\<close>, every kept quiz of \<open>done\<close> without a \<^verbatim>\<open>uniqueId\<close> is the one the map holds for
  its hash, and the removed quizzes are those of \<open>all\<close> that are not kept.
\<close>

definition pass2_inv ::
  "(string \<Rightarrow> 'k::linorder) \<Rightarrow> quiz list \<Rightarrow> nat set \<Rightarrow> quiz list \<Rightarrow> dedupState \<Rightarrow> bool" where
  "pass2_inv collate all kept1 done st =
     (uniqueQuizIds st \<subseteq> kept1
      \<and> (\<forall>h quiz. contentHashMap st h = Some quiz
            \<longrightarrow> quiz \<in> set done \<and> createContentHash collate quiz = h
                \<and> \<not> truthy_string (uniqueId quiz))
      \<and> (\<forall>quiz \<in> set done. \<not> truthy_string (uniqueId quiz) \<and> id' quiz \<in> uniqueQuizIds st
            \<longrightarrow> contentHashMap st (createContentHash collate quiz) = Some quiz)
      \<and> id' ` set (duplicatesRemoved st) = id' ` set all - uniqueQuizIds st)"

text \<open>
  The title map after the quizzes \<open>done\<close>: its keys are distinct, the group of a title is the
  list of the kept quizzes of \<open>done\<close> with this normalized title, and every kept quiz of
  \<open>done\<close> has its title among the keys.
\<close>

definition titleMap_inv :: "nat set \<Rightarrow> quiz list \<Rightarrow> (string \<times> quiz list) list \<Rightarrow> bool" where
  "titleMap_inv kept done titleMap =
     (distinct (map fst titleMap)
      \<and> (\<forall>t group. map_of titleMap t = Some group
            \<longrightarrow> group = filter (\<lambda>quiz. id' quiz \<in> kept \<and> normalized (title quiz) = t) done)
      \<and> (\<forall>quiz \<in> set done. id' quiz \<in> kept \<longrightarrow> map_of titleMap (normalized (title quiz)) \<noteq> None))"

text \<open>
  A list of quizzes in which the duplicate removal finds nothing: the \<^verbatim>\<open>uniqueId\<close>s that are
  present are distinct, the content hashes of the quizzes without \<^verbatim>\<open>uniqueId\<close> are distinct,
  and no quiz forms a duplicate pair of pass 3 with a later quiz of the same normalized
  title.
\<close>

definition duplicateFree :: "(string \<Rightarrow> 'k::linorder) \<Rightarrow> quiz list \<Rightarrow> bool" where
  "duplicateFree collate qs =
     (distinct (map uniqueId (filter (\<lambda>quiz. truthy_string (uniqueId quiz)) qs))
      \<and> distinct (map (createContentHash collate)
            (filter (\<lambda>quiz. \<not> truthy_string (uniqueId quiz)) qs))
      \<and> sorted_wrt (\<lambda>quiz1 quiz2. normalized (title quiz1) = normalized (title quiz2)
            \<longrightarrow> \<not> isDuplicatePair quiz1 quiz2) qs)"

subsection \<open>A scanner for the serialized questions\<close>

text \<open>
  A device of the proof that the content hash determines the normalized title: a scanner
  that reads the JSON text of \<^const>\<open>jsonArray\<close> character by character. It knows whether it
  is outside a string, inside one, or behind a backslash inside one; it counts the open
  brackets outside strings, notes when the last one is closed, and flags a text in which a
  character follows the closing bracket, a closing bracket has no opening one, or the
  letter \<^verbatim>\<open>q\<close> follows the end of a string.
\<close>

datatype lexMode = Outside | Inside | Escaped

record lexState =
  lexMode :: lexMode
  depth :: nat
  afterString :: bool
  closed :: bool
  flagged :: bool

definition lexStart :: lexState where
  "lexStart = \<lparr>lexMode = Outside, depth = 0, afterString = False, closed = False, flagged = False\<rparr>"

definition lexStep :: "char \<Rightarrow> lexState \<Rightarrow> lexState" where
  "lexStep c st =
     (if closed st then st\<lparr>flagged := True\<rparr>
      else case lexMode st of
        Escaped \<Rightarrow> st\<lparr>lexMode := Inside\<rparr>
      | Inside \<Rightarrow>
          (if c = CHR 0x5C then st\<lparr>lexMode := Escaped\<rparr>
           else if c = CHR 0x22 then st\<lparr>lexMode := Outside, afterString := True\<rparr>
           else st)
      | Outside \<Rightarrow>
          (if c = CHR 0x22 then st\<lparr>lexMode := Inside, afterString := False\<rparr>
           else if c = CHR ''['' then st\<lparr>depth := depth st + 1, afterString := False\<rparr>
           else if c = CHR '']'' then
             (if depth st = 0 then st\<lparr>flagged := True\<rparr>
              else if depth st = 1 then st\<lparr>depth := 0, closed := True, afterString := False\<rparr>
              else st\<lparr>depth := depth st - 1, afterString := False\<rparr>)
           else if c = CHR ''q'' \<and> afterString st then st\<lparr>flagged := True\<rparr>
           else st\<lparr>afterString := False\<rparr>))"

definition lexScan :: "string \<Rightarrow> lexState \<Rightarrow> lexState" where
  "lexScan w st = fold lexStep w st"

subsection \<open>Concrete inputs\<close>

text \<open>Shorthands for the records the examples below are evaluated at.\<close>

definition exampleQuestion :: "string \<Rightarrow> string \<Rightarrow> quizQuestion" where
  "exampleQuestion prompt answer = \<lparr>question = prompt, options = [], correctAnswer = answer\<rparr>"

definition exampleQuiz ::
  "nat \<Rightarrow> string option \<Rightarrow> string \<Rightarrow> quizQuestion list \<Rightarrow> int \<Rightarrow> int \<Rightarrow> quiz" where
  "exampleQuiz i u t qs v c =
     \<lparr>uniqueId = u, title = t, questions = qs, isPublic = Some True, version = Some v,
      createdAt = Some c, id' = i\<rparr>"

definition exampleSubmission ::
  "string \<Rightarrow> string \<Rightarrow> bool \<Rightarrow> int option \<Rightarrow> int option \<Rightarrow> insertQuiz" where
  "exampleSubmission u t p v c =
     \<lparr>uniqueId = Some u, title = t, questions = [], isPublic = Some p, version = v,
      createdAt = c\<rparr>"

definition exampleEnv :: env where
  "exampleEnv = \<lparr>uuidv4 = (\<lambda>i. ''generated''), now = (\<lambda>i. 0)\<rparr>"

section \<open>Properties\<close>

subsection \<open>The similarity count\<close>

lemma matchCount_filter:
  "matchCount qs1 qs2 = length (filter (\<lambda>q1. hasMatch q1 qs2) qs1)"
  by (induction qs1) auto

lemma hasMatch_iff: "hasMatch q1 qs2 \<longleftrightarrow> (\<exists>q2 \<in> set qs2. questionsMatch q1 q2)"
  by (induction qs2) auto

text \<open>
  Claim C8, as the code has it: \<^verbatim>\<open>matchCount\<close> is the number of questions of the first quiz
  that match some question of the second quiz, so each question of the first quiz counts
  at most once and the count never exceeds the number of questions of the first quiz.
  (Nothing marks a question of the second quiz as used.)
\<close>

theorem matchCount_first_quiz:
  "matchCount qs1 qs2 = length (filter (\<lambda>q1. \<exists>q2 \<in> set qs2. questionsMatch q1 q2) qs1)
   \<and> matchCount qs1 qs2 \<le> length qs1"
  by (simp add: matchCount_filter hasMatch_iff)

theorem matchCount_first_quiz_witness:
  "matchCount
     [\<lparr>question = ''p1'', options = [], correctAnswer = ''a''\<rparr>,
      \<lparr>question = ''p2'', options = [], correctAnswer = ''b''\<rparr>]
     [\<lparr>question = ''p3'', options = [], correctAnswer = ''a''\<rparr>] = 1
   \<and> matchCount
     [\<lparr>question = ''p1'', options = [], correctAnswer = ''a''\<rparr>,
      \<lparr>question = ''p2'', options = [], correctAnswer = ''b''\<rparr>]
     [\<lparr>question = ''p3'', options = [], correctAnswer = ''a''\<rparr>] \<le> 2"
proof -
  let ?qs1 = "[\<lparr>question = ''p1'', options = [], correctAnswer = ''a''\<rparr>,
      \<lparr>question = ''p2'', options = [], correctAnswer = ''b''\<rparr>]"
  let ?qs2 = "[\<lparr>question = ''p3'', options = [], correctAnswer = ''a''\<rparr>]"
  have f: "length (filter (\<lambda>q1. \<exists>q2 \<in> set ?qs2. questionsMatch q1 q2) ?qs1) = 1"
    by code_simp
  from matchCount_first_quiz [of ?qs1 ?qs2] f show ?thesis by simp
qed

text \<open>
  Claim C8 as stated fails: two questions of the first quiz with the answer \<^verbatim>\<open>a\<close> both
  match the only question of the second quiz, and the count, 2, exceeds the second
  quiz's number of questions.
\<close>

theorem matchCount_second_quiz_counterexample:
  "\<not> (matchCount
         [\<lparr>question = ''p1'', options = [], correctAnswer = ''a''\<rparr>,
          \<lparr>question = ''p2'', options = [], correctAnswer = ''a''\<rparr>]
         [\<lparr>question = ''p3'', options = [], correctAnswer = ''a''\<rparr>]
        \<le> length [\<lparr>question = ''p3'', options = [], correctAnswer = ''a''\<rparr>])"
  by (simp add: questionsMatch_def)

subsection \<open>The tie-break\<close>

lemma keepNew_iff:
  "keepNew a b \<longleftrightarrow>
     (\<exists>va vb. version a = Some va \<and> version b = Some vb \<and> va \<noteq> 0 \<and> vb \<noteq> 0 \<and> vb < va)
     \<or> (\<exists>ca cb. createdAt a = Some ca \<and> createdAt b = Some cb \<and> cb < ca)"
  by (auto simp: keepNew_def truthy_number_def truthy_date_def split: option.splits)

text \<open>
  Claim C4, as the code has it. The tie-break is the function \<^const>\<open>keepNew\<close> of the two
  records alone: it keeps \<open>a\<close> exactly when both versions are present and not zero and
  \<open>a\<close>'s is greater, or both have a \<^verbatim>\<open>createdAt\<close> and \<open>a\<close>'s is strictly later; otherwise it
  keeps \<open>b\<close>. Each pass removes the loser of this one rule: pass 1 and pass 2 with the
  quiz at hand as \<open>a\<close> and the quiz already recorded under the same \<^verbatim>\<open>uniqueId\<close> or content
  hash as \<open>b\<close>, pass 3 with the earlier quiz of the pair as \<open>a\<close>.
\<close>

theorem tieBreak_rule:
  "(keepNew a b \<longleftrightarrow>
      (\<exists>va vb. version a = Some va \<and> version b = Some vb \<and> va \<noteq> 0 \<and> vb \<noteq> 0 \<and> vb < va)
      \<or> (\<exists>ca cb. createdAt a = Some ca \<and> createdAt b = Some cb \<and> cb < ca))
   \<and> (truthy_string (uniqueId a) \<and> uniqueIdMap st (the (uniqueId a)) = Some b \<longrightarrow>
        duplicatesRemoved (pass1Step a st)
          = duplicatesRemoved st @ [if keepNew a b then b else a])
   \<and> (id' a \<in> uniqueQuizIds st \<and> \<not> truthy_string (uniqueId a)
        \<and> contentHashMap st (createContentHash collate a) = Some b \<longrightarrow>
        duplicatesRemoved (pass2Step collate a st)
          = duplicatesRemoved st @ [if keepNew a b then b else a])
   \<and> (id' b \<in> finalUniqueQuizIds st \<and> isDuplicatePair a b \<longrightarrow>
        duplicatesRemoved (innerLoop a [b] st)
          = duplicatesRemoved st @ [if keepNew a b then b else a])"
  by (auto simp: keepNew_iff pass1Step_def pass2Step_def isDuplicatePair_def Let_def)

theorem tieBreak_rule_witness:
  "keepNew (exampleQuiz 2 (Some ''u1'') ''t'' [] 2 5) (exampleQuiz 1 (Some ''u1'') ''t'' [] 1 5)
   \<and> duplicatesRemoved
        (pass1Step (exampleQuiz 2 (Some ''u1'') ''t'' [] 2 5)
           (pass1Step (exampleQuiz 1 (Some ''u1'') ''t'' [] 1 5) initialState))
      = [exampleQuiz 1 (Some ''u1'') ''t'' [] 1 5]
   \<and> duplicatesRemoved
        (pass2Step (\<lambda>x. x) (exampleQuiz 2 None ''t'' [] 1 5)
           (pass2Step (\<lambda>x. x) (exampleQuiz 1 None ''t'' [] 1 5)
              (initialState\<lparr>uniqueQuizIds := {1, 2}\<rparr>)))
      = [exampleQuiz 2 None ''t'' [] 1 5]
   \<and> duplicatesRemoved
        (innerLoop (exampleQuiz 1 (Some ''u1'') ''t'' [] 1 5) [exampleQuiz 2 None ''t'' [] 1 9]
           (initialState\<lparr>finalUniqueQuizIds := {1, 2}\<rparr>))
      = [exampleQuiz 1 (Some ''u1'') ''t'' [] 1 5]"
proof -
  let ?a = "exampleQuiz 2 (Some ''u1'') ''t'' [] 2 5"
  let ?b = "exampleQuiz 1 (Some ''u1'') ''t'' [] 1 5"
  let ?c = "exampleQuiz 2 None ''t'' [] 1 5"
  let ?d = "exampleQuiz 1 None ''t'' [] 1 5"
  let ?f = "exampleQuiz 2 None ''t'' [] 1 9"
  let ?st1 = "pass1Step ?b initialState"
  let ?st2 = "pass2Step (\<lambda>x. x) ?d (initialState\<lparr>uniqueQuizIds := {1, 2}\<rparr>)"
  let ?st3 = "initialState\<lparr>finalUniqueQuizIds := {1, 2}\<rparr>"
  have k: "keepNew ?a ?b" "\<not> keepNew ?c ?d" "\<not> keepNew ?b ?f"
    by code_simp+
  have h1: "truthy_string (uniqueId ?a) \<and> uniqueIdMap ?st1 (the (uniqueId ?a)) = Some ?b"
    by code_simp
  have h2: "id' ?c \<in> uniqueQuizIds ?st2 \<and> \<not> truthy_string (uniqueId ?c)
        \<and> contentHashMap ?st2 (createContentHash (\<lambda>x. x) ?c) = Some ?d"
    by code_simp
  have h3: "id' ?f \<in> finalUniqueQuizIds ?st3 \<and> isDuplicatePair ?b ?f"
    by code_simp
  have d: "duplicatesRemoved ?st1 = []" "duplicatesRemoved ?st2 = []" "duplicatesRemoved ?st3 = []"
    by code_simp+
  from tieBreak_rule [of ?a ?b ?st1 "\<lambda>x. x", THEN conjunct2, THEN conjunct1] h1 k(1) d(1)
  have c1: "duplicatesRemoved (pass1Step ?a ?st1) = [?b]" by simp
  from tieBreak_rule [of ?c ?d ?st2 "\<lambda>x. x", THEN conjunct2, THEN conjunct2, THEN conjunct1] h2 k(2) d(2)
  have c2: "duplicatesRemoved (pass2Step (\<lambda>x. x) ?c ?st2) = [?c]" by simp
  from tieBreak_rule [of ?b ?f ?st3 "\<lambda>x. x", THEN conjunct2, THEN conjunct2, THEN conjunct2] h3 k(3) d(3)
  have c3: "duplicatesRemoved (innerLoop ?b [?f] ?st3) = [?b]" by simp
  show ?thesis using k(1) c1 c2 c3 by simp
qed

text \<open>
  Claim C4 as stated fails where a version is present and zero: the first record has
  version 1 and the second version 0, both were created at the same time, and the rule
  of the claim keeps the first while the code, for which 0 is no version, keeps the
  second.
\<close>

theorem tieBreak_zero_version_counterexample:
  "\<not> (keepNew (exampleQuiz 1 (Some ''u1'') ''t'' [] 1 5) (exampleQuiz 2 (Some ''u1'') ''t'' [] 0 5)
       \<longleftrightarrow>
       (version (exampleQuiz 1 (Some ''u1'') ''t'' [] 1 5) \<noteq> None
        \<and> version (exampleQuiz 2 (Some ''u1'') ''t'' [] 0 5) \<noteq> None
        \<and> the (version (exampleQuiz 1 (Some ''u1'') ''t'' [] 1 5))
            > the (version (exampleQuiz 2 (Some ''u1'') ''t'' [] 0 5)))
       \<or> (createdAt (exampleQuiz 1 (Some ''u1'') ''t'' [] 1 5) \<noteq> None
        \<and> createdAt (exampleQuiz 2 (Some ''u1'') ''t'' [] 0 5) \<noteq> None
        \<and> the (createdAt (exampleQuiz 1 (Some ''u1'') ''t'' [] 1 5))
            > the (createdAt (exampleQuiz 2 (Some ''u1'') ''t'' [] 0 5))))"
  by (simp add: keepNew_def exampleQuiz_def truthy_number_def truthy_date_def)

subsection \<open>Quizzes without questions\<close>

text \<open>
  Claim C7, as the code has it. For two quizzes with an empty \<^verbatim>\<open>questions\<close> array the counts
  differ by 0, \<^verbatim>\<open>matchCount\<close> is 0 and the threshold is \<^verbatim>\<open>0 * 0.8 = 0\<close>, so \<^verbatim>\<open>0 >= 0\<close> holds:
  pass 3 marks the pair as duplicates whenever it compares it, that is unless both carry
  a \<^verbatim>\<open>uniqueId\<close> and the two differ, and removes the loser of the tie-break.
\<close>

theorem empty_quizzes_pass3:
  "questions quiz1 = [] \<and> questions quiz2 = [] \<longrightarrow>
     (isDuplicatePair quiz1 quiz2 \<longleftrightarrow> \<not> distinctUniqueIds quiz1 quiz2)
     \<and> (id' quiz2 \<in> finalUniqueQuizIds st \<and> \<not> distinctUniqueIds quiz1 quiz2 \<longrightarrow>
          duplicatesRemoved (innerLoop quiz1 [quiz2] st)
            = duplicatesRemoved st @ [if keepNew quiz1 quiz2 then quiz2 else quiz1])"
  by (simp add: isDuplicatePair_def similarQuestions_def)

theorem empty_quizzes_pass3_witness:
  "isDuplicatePair (exampleQuiz 1 (Some ''u1'') ''t'' [] 1 5) (exampleQuiz 2 None ''t'' [] 1 9)
   \<and> duplicatesRemoved
        (innerLoop (exampleQuiz 1 (Some ''u1'') ''t'' [] 1 5) [exampleQuiz 2 None ''t'' [] 1 9]
           (initialState\<lparr>finalUniqueQuizIds := {1, 2}\<rparr>))
      = [exampleQuiz 1 (Some ''u1'') ''t'' [] 1 5]"
proof -
  let ?a = "exampleQuiz 1 (Some ''u1'') ''t'' [] 1 5"
  let ?b = "exampleQuiz 2 None ''t'' [] 1 9"
  let ?st = "initialState\<lparr>finalUniqueQuizIds := {1, 2}\<rparr>"
  have h: "questions ?a = [] \<and> questions ?b = []"
    "id' ?b \<in> finalUniqueQuizIds ?st \<and> \<not> distinctUniqueIds ?a ?b"
    "\<not> keepNew ?a ?b" "duplicatesRemoved ?st = []"
    by code_simp+
  from empty_quizzes_pass3 [of ?a ?b ?st] h show ?thesis by simp
qed

text \<open>
  Claim C7 as stated fails: of two quizzes without questions and with the same normalized
  title, the first has a \<^verbatim>\<open>uniqueId\<close> and the second has none. Their content hashes are
  equal, but pass 2 looks only at quizzes without a \<^verbatim>\<open>uniqueId\<close>, so both are still kept
  after pass 2; pass 3 marks them as duplicates and the first one is removed.
\<close>

theorem empty_quizzes_counterexample:
  "normalized (title (exampleQuiz 1 (Some ''u1'') ''Quiz'' [] 1 5))
     = normalized (title (exampleQuiz 2 None ''quiz '' [] 1 5))
   \<and> createContentHash (\<lambda>x. x) (exampleQuiz 1 (Some ''u1'') ''Quiz'' [] 1 5)
     = createContentHash (\<lambda>x. x) (exampleQuiz 2 None ''quiz '' [] 1 5)
   \<and> duplicatesRemoved
        (fold (pass2Step (\<lambda>x. x))
          [exampleQuiz 1 (Some ''u1'') ''Quiz'' [] 1 5, exampleQuiz 2 None ''quiz '' [] 1 5]
          (fold pass1Step
            [exampleQuiz 1 (Some ''u1'') ''Quiz'' [] 1 5, exampleQuiz 2 None ''quiz '' [] 1 5]
            initialState)) = []
   \<and> isDuplicatePair (exampleQuiz 1 (Some ''u1'') ''Quiz'' [] 1 5) (exampleQuiz 2 None ''quiz '' [] 1 5)
   \<and> removeDuplicateQuizzes (\<lambda>x. x)
        \<lparr>quizCollection =
           [(1, exampleQuiz 1 (Some ''u1'') ''Quiz'' [] 1 5), (2, exampleQuiz 2 None ''quiz '' [] 1 5)],
         quizCurrentId = 3\<rparr>
      = (1, \<lparr>quizCollection = [(2, exampleQuiz 2 None ''quiz '' [] 1 5)], quizCurrentId = 3\<rparr>)"
  by code_simp

subsection \<open>Updates and the creation time\<close>

lemma wf_collection_map_of:
  "wf_collection c \<Longrightarrow> q \<in> set (map snd c) \<Longrightarrow> map_of c (id' q) = Some q"
  by (auto simp: wf_collection_def list_all_iff)

lemma find_Some_set: "find P xs = Some x \<Longrightarrow> x \<in> set xs \<and> P x"
  by (induction xs) (auto split: if_splits)

lemma getQuizByUniqueId_Some:
  "getQuizByUniqueId s u = Some q \<Longrightarrow> q \<in> set (allValues s) \<and> uniqueId q = Some u"
  unfolding getQuizByUniqueId_def by (drule find_Some_set) simp

lemma wf_getQuiz:
  "wf_storage s \<Longrightarrow> q \<in> set (allValues s) \<Longrightarrow> getQuiz s (id' q) = Some q"
  unfolding wf_storage_def getQuiz_def allValues_def by (simp add: wf_collection_map_of)

lemma getQuiz_updateQuiz:
  "getQuiz s i = Some existingQuiz \<Longrightarrow>
   getQuiz (snd (updateQuiz s i upd)) i = Some (mergeUpdate existingQuiz upd)"
  by (simp add: getQuiz_def updateQuiz_def Let_def update_conv')

text \<open>
  Claim C9, as the code has it. \<^verbatim>\<open>updateQuiz\<close> spreads the update over the stored quiz, so
  the stored \<^verbatim>\<open>createdAt\<close> stays as it was exactly when the update has no \<^verbatim>\<open>createdAt\<close>, and
  becomes the update's \<^verbatim>\<open>createdAt\<close> otherwise. The same holds for the update that
  \<^verbatim>\<open>syncQuizzes\<close> applies to the stored quiz with the submitted \<^verbatim>\<open>uniqueId\<close>: the submitted
  quiz is the update. (The route \<^verbatim>\<open>POST /api/quizzes/sync\<close>, lines 716--729, gives every
  submitted quiz a \<^verbatim>\<open>createdAt\<close> before it calls \<^verbatim>\<open>syncQuizzes\<close>.)
\<close>

theorem createdAt_after_update:
  "(getQuiz s i = Some existingQuiz \<longrightarrow>
      (\<exists>r. getQuiz (snd (updateQuiz s i upd)) i = Some r
           \<and> createdAt r = (case u_createdAt upd of None \<Rightarrow> createdAt existingQuiz | Some d \<Rightarrow> Some d)))
   \<and> (wf_storage s \<and> truthy_string (uniqueId quizToSync)
       \<and> getQuizByUniqueId s (the (uniqueId quizToSync)) = Some existingQuiz \<longrightarrow>
      (\<exists>r. getQuiz (syncPublicStep e quizToSync s) (id' existingQuiz) = Some r
           \<and> createdAt r
              = (case createdAt quizToSync of None \<Rightarrow> createdAt existingQuiz | Some d \<Rightarrow> Some d)))"
proof (intro conjI impI)
  assume "getQuiz s i = Some existingQuiz"
  then show "\<exists>r. getQuiz (snd (updateQuiz s i upd)) i = Some r
           \<and> createdAt r = (case u_createdAt upd of None \<Rightarrow> createdAt existingQuiz | Some d \<Rightarrow> Some d)"
    by (simp add: getQuiz_updateQuiz mergeUpdate_def)
next
  assume a: "wf_storage s \<and> truthy_string (uniqueId quizToSync)
       \<and> getQuizByUniqueId s (the (uniqueId quizToSync)) = Some existingQuiz"
  then have "getQuiz s (id' existingQuiz) = Some existingQuiz"
    using getQuizByUniqueId_Some wf_getQuiz by blast
  then have "getQuiz (syncPublicStep e quizToSync s) (id' existingQuiz)
      = Some (mergeUpdate existingQuiz (asUpdate quizToSync))"
    using a by (simp add: syncPublicStep_def getQuiz_updateQuiz)
  then show "\<exists>r. getQuiz (syncPublicStep e quizToSync s) (id' existingQuiz) = Some r
           \<and> createdAt r
              = (case createdAt quizToSync of None \<Rightarrow> createdAt existingQuiz | Some d \<Rightarrow> Some d)"
    by (simp add: mergeUpdate_def asUpdate_def)
qed


theorem createdAt_after_update_witness:
  "getQuiz (snd (createQuiz exampleEnv emptyStorage (exampleSubmission ''u1'' ''T'' True None (Some 1)))) 1
     = Some (exampleQuiz 1 (Some ''u1'') ''T'' [] 1 1)
   \<and> createdAt (the (getQuiz
        (snd (updateQuiz
           (snd (createQuiz exampleEnv emptyStorage (exampleSubmission ''u1'' ''T'' True None (Some 1))))
           1
           \<lparr>u_uniqueId = None, u_title = Some ''T2'', u_questions = None, u_isPublic = None,
            u_version = None, u_createdAt = None\<rparr>)) 1)) = Some 1
   \<and> createdAt (the (getQuiz
        (syncPublicStep exampleEnv (exampleSubmission ''u1'' ''T2'' True None (Some 7))
           (snd (createQuiz exampleEnv emptyStorage (exampleSubmission ''u1'' ''T'' True None (Some 1)))))
        1)) = Some 7"
proof -
  let ?s = "snd (createQuiz exampleEnv emptyStorage (exampleSubmission ''u1'' ''T'' True None (Some 1)))"
  let ?x = "exampleQuiz 1 (Some ''u1'') ''T'' [] 1 1"
  let ?u = "\<lparr>u_uniqueId = None, u_title = Some ''T2'', u_questions = None, u_isPublic = None,
            u_version = None, u_createdAt = None\<rparr>"
  let ?q = "exampleSubmission ''u1'' ''T2'' True None (Some 7)"
  have h1: "getQuiz ?s 1 = Some ?x" by code_simp
  have h2: "wf_storage ?s \<and> truthy_string (uniqueId ?q)
       \<and> getQuizByUniqueId ?s (the (uniqueId ?q)) = Some ?x" by code_simp
  have v: "id' ?x = 1" "createdAt ?x = Some 1" "u_createdAt ?u = None" "createdAt ?q = Some 7"
    by code_simp+
  from createdAt_after_update [of ?s 1 ?x ?u, THEN conjunct1] h1 v
  have c1: "createdAt (the (getQuiz (snd (updateQuiz ?s 1 ?u)) 1)) = Some 1" by auto
  from createdAt_after_update [where s = ?s and quizToSync = ?q and existingQuiz = ?x and e = exampleEnv, THEN conjunct2] h2 v
  have c2: "createdAt (the (getQuiz (syncPublicStep exampleEnv ?q ?s) 1)) = Some 7" by auto
  show ?thesis using h1 c1 c2 by simp
qed

text \<open>
  Claim C9 as stated fails: a quiz is created by a first sync with \<^verbatim>\<open>createdAt\<close> 1; a second
  sync submits the same \<^verbatim>\<open>uniqueId\<close> with \<^verbatim>\<open>createdAt\<close> 2, and the stored \<^verbatim>\<open>createdAt\<close> is 2
  afterwards.
\<close>

theorem createdAt_changed_counterexample:
  "map createdAt (allValues (snd (syncQuizzes exampleEnv emptyStorage
       [exampleSubmission ''u1'' ''T'' True None (Some 1)]))) = [Some 1]
   \<and> map createdAt (allValues (snd (syncQuizzes exampleEnv
       (snd (syncQuizzes exampleEnv emptyStorage [exampleSubmission ''u1'' ''T'' True None (Some 1)]))
       [exampleSubmission ''u1'' ''T'' True None (Some 2)]))) = [Some 2]"
  by code_simp

subsection \<open>The content hash under permutations\<close>

lemma questionData_content:
  "questionData q =
     (case questionContent q of (p, os, a) \<Rightarrow>
        \<lparr>d_question = p, d_options = join ''|'' os, d_correctAnswer = a\<rparr>)"
  by (simp add: questionData_def questionContent_def)

lemma questionContent_eq_data:
  "questionContent q1 = questionContent q2 \<Longrightarrow> questionData q1 = questionData q2"
  by (simp add: questionData_content)

lemma mset_questionData:
  assumes "mset (map questionContent qs) = mset (map questionContent qs')"
  shows "mset (map questionData qs) = mset (map questionData qs')"
proof -
  let ?g = "\<lambda>c. case c of (p, os, a) \<Rightarrow>
        \<lparr>d_question = p, d_options = join ''|'' os, d_correctAnswer = a\<rparr>"
  have e: "questionData = ?g \<circ> questionContent"
    by (rule ext) (simp add: questionData_content)
  have "mset (map questionData xs) = image_mset ?g (mset (map questionContent xs))" for xs
    unfolding e by (simp add: multiset.map_comp)
  with assms show ?thesis by simp
qed

lemma sort_key_mset_eq:
  fixes f :: "'a \<Rightarrow> 'k::linorder"
  assumes "mset xs = mset ys" and "inj_on f (set xs)"
  shows "sort_key f xs = sort_key f ys"
proof (rule sort_key_inj_key_eq)
  show "mset xs = mset (sort_key f ys)" using assms(1) by simp
  show "inj_on f (set xs)" by fact
  show "sorted (map f (sort_key f ys))" by simp
qed

lemma sort_mset_eq:
  fixes xs :: "'a::linorder list"
  assumes "mset xs = mset ys"
  shows "sort xs = sort ys"
proof (rule properties_for_sort)
  show "mset (sort ys) = mset xs" using assms by simp
  show "sorted (sort ys)" by simp
qed

lemma options_permuted:
  assumes "mset (options q) = mset (options q')"
  shows "sort (map normalized (options q)) = sort (map normalized (options q'))"
proof (rule sort_mset_eq)
  have "image_mset normalized (mset (options q)) = image_mset normalized (mset (options q'))"
    using assms by simp
  then show "mset (map normalized (options q)) = mset (map normalized (options q'))"
    by simp
qed

lemma options_permuted_data:
  assumes "list_all2 (\<lambda>q q'. question q = question q' \<and> correctAnswer q = correctAnswer q'
             \<and> mset (options q) = mset (options q')) qs qs'"
  shows "map questionData qs = map questionData qs'"
  using assms
proof (induction rule: list_all2_induct)
  case Nil
  then show ?case by simp
next
  case (Cons q qs q' qs')
  from Cons.hyps(1) have "mset (options q) = mset (options q')" by simp
  then have "sort (map normalized (options q)) = sort (map normalized (options q'))"
    by (rule options_permuted)
  with Cons.hyps(1) have "questionData q = questionData q'" by (simp add: questionData_def)
  with Cons.IH show ?case by simp
qed

text \<open>
  Claim C5, as the code has it. The first part: permuting the options within any of the
  questions of a quiz leaves the content hash unchanged, without any condition. The second
  part: two quizzes with the same normalized title and the same multiset of content tuples
  (so, the same number of questions) have the same content hash, provided that questions
  of the quiz whose normalized prompts \<^verbatim>\<open>localeCompare\<close> takes for equal have the same content
  tuple; in particular when the normalized prompts are pairwise distinct for
  \<^verbatim>\<open>localeCompare\<close>. This covers a permutation of the questions. Both hold for every
  collation.
\<close>

theorem fingerprint_permutation:
  "(normalized (title quiz) = normalized (title quiz')
      \<and> list_all2 (\<lambda>q q'. question q = question q' \<and> correctAnswer q = correctAnswer q'
            \<and> mset (options q) = mset (options q')) (questions quiz) (questions quiz')
      \<longrightarrow> createContentHash collate quiz = createContentHash collate quiz')
   \<and> (normalized (title quiz) = normalized (title quiz')
      \<and> mset (map questionContent (questions quiz)) = mset (map questionContent (questions quiz'))
      \<and> (\<forall>q1 \<in> set (questions quiz). \<forall>q2 \<in> set (questions quiz).
            collate (normalized (question q1)) = collate (normalized (question q2))
            \<longrightarrow> questionContent q1 = questionContent q2)
      \<longrightarrow> length (questions quiz) = length (questions quiz')
          \<and> createContentHash collate quiz = createContentHash collate quiz')"
proof (intro conjI impI)
  assume "normalized (title quiz) = normalized (title quiz')
      \<and> list_all2 (\<lambda>q q'. question q = question q' \<and> correctAnswer q = correctAnswer q'
            \<and> mset (options q) = mset (options q')) (questions quiz) (questions quiz')"
  then have t: "normalized (title quiz) = normalized (title quiz')"
    and p: "list_all2 (\<lambda>q q'. question q = question q' \<and> correctAnswer q = correctAnswer q'
            \<and> mset (options q) = mset (options q')) (questions quiz) (questions quiz')"
    by blast+
  from p have "map questionData (questions quiz) = map questionData (questions quiz')"
    by (rule options_permuted_data)
  with t show "createContentHash collate quiz = createContentHash collate quiz'"
    by (simp add: createContentHash_def)
next
  assume a: "normalized (title quiz) = normalized (title quiz')
      \<and> mset (map questionContent (questions quiz)) = mset (map questionContent (questions quiz'))
      \<and> (\<forall>q1 \<in> set (questions quiz). \<forall>q2 \<in> set (questions quiz).
            collate (normalized (question q1)) = collate (normalized (question q2))
            \<longrightarrow> questionContent q1 = questionContent q2)"
  then have t: "normalized (title quiz) = normalized (title quiz')"
    and c: "mset (map questionContent (questions quiz)) = mset (map questionContent (questions quiz'))"
    and i: "\<And>q1 q2. q1 \<in> set (questions quiz) \<Longrightarrow> q2 \<in> set (questions quiz) \<Longrightarrow>
            collate (normalized (question q1)) = collate (normalized (question q2))
            \<Longrightarrow> questionContent q1 = questionContent q2"
    by blast+
  from c have "size (mset (map questionContent (questions quiz)))
      = size (mset (map questionContent (questions quiz')))" by (rule arg_cong)
  then show "length (questions quiz) = length (questions quiz')" by simp
  from c have m: "mset (map questionData (questions quiz)) = mset (map questionData (questions quiz'))"
    by (rule mset_questionData)
  have "inj_on (\<lambda>d. collate (d_question d)) (set (map questionData (questions quiz)))"
  proof (rule inj_onI)
    fix d1 d2
    assume d: "d1 \<in> set (map questionData (questions quiz))"
      "d2 \<in> set (map questionData (questions quiz))"
      and k: "collate (d_question d1) = collate (d_question d2)"
    from d obtain q1 q2 where q: "q1 \<in> set (questions quiz)" "q2 \<in> set (questions quiz)"
      "d1 = questionData q1" "d2 = questionData q2" by auto
    with k have "collate (normalized (question q1)) = collate (normalized (question q2))"
      by (simp add: questionData_def)
    with q(1,2) have "questionContent q1 = questionContent q2" by (rule i)
    then have "questionData q1 = questionData q2" by (rule questionContent_eq_data)
    with q show "d1 = d2" by simp
  qed
  with m have "sort_key (\<lambda>d. collate (d_question d)) (map questionData (questions quiz))
      = sort_key (\<lambda>d. collate (d_question d)) (map questionData (questions quiz'))"
    by (rule sort_key_mset_eq)
  with t show "createContentHash collate quiz = createContentHash collate quiz'"
    by (simp add: createContentHash_def)
qed

theorem fingerprint_permutation_witness:
  "createContentHash (\<lambda>x. x)
     (exampleQuiz 1 None ''Math Quiz''
        [\<lparr>question = ''same'', options = [''4'', ''5''], correctAnswer = ''4''\<rparr>,
         \<lparr>question = ''same'', options = [''3'', ''2''], correctAnswer = ''2''\<rparr>] 1 5)
   = createContentHash (\<lambda>x. x)
     (exampleQuiz 2 None '' math quiz''
        [\<lparr>question = ''same'', options = [''5'', ''4''], correctAnswer = ''4''\<rparr>,
         \<lparr>question = ''same'', options = [''2'', ''3''], correctAnswer = ''2''\<rparr>] 1 5)
   \<and> createContentHash (\<lambda>x. x)
     (exampleQuiz 1 None ''Math Quiz''
        [\<lparr>question = ''2+2?'', options = [''4'', ''5''], correctAnswer = ''4''\<rparr>,
         \<lparr>question = ''1+1?'', options = [''3'', ''2''], correctAnswer = ''2''\<rparr>] 1 5)
   = createContentHash (\<lambda>x. x)
     (exampleQuiz 2 None '' math quiz''
        [\<lparr>question = ''1+1?'', options = [''2'', ''3''], correctAnswer = ''2''\<rparr>,
         \<lparr>question = ''2+2?'', options = [''5'', ''4''], correctAnswer = ''4''\<rparr>] 1 5)"
proof -
  let ?c = "\<lparr>question = ''same'', options = [''4'', ''5''], correctAnswer = ''4''\<rparr>"
  let ?d = "\<lparr>question = ''same'', options = [''3'', ''2''], correctAnswer = ''2''\<rparr>"
  let ?c' = "\<lparr>question = ''same'', options = [''5'', ''4''], correctAnswer = ''4''\<rparr>"
  let ?d' = "\<lparr>question = ''same'', options = [''2'', ''3''], correctAnswer = ''2''\<rparr>"
  let ?u = "exampleQuiz 1 None ''Math Quiz'' [?c, ?d] 1 5"
  let ?v = "exampleQuiz 2 None '' math quiz'' [?c', ?d'] 1 5"
  let ?a = "\<lparr>question = ''2+2?'', options = [''4'', ''5''], correctAnswer = ''4''\<rparr>"
  let ?b = "\<lparr>question = ''1+1?'', options = [''3'', ''2''], correctAnswer = ''2''\<rparr>"
  let ?b' = "\<lparr>question = ''1+1?'', options = [''2'', ''3''], correctAnswer = ''2''\<rparr>"
  let ?a' = "\<lparr>question = ''2+2?'', options = [''5'', ''4''], correctAnswer = ''4''\<rparr>"
  let ?x = "exampleQuiz 1 None ''Math Quiz'' [?a, ?b] 1 5"
  let ?y = "exampleQuiz 2 None '' math quiz'' [?b', ?a'] 1 5"
  have t: "normalized (title ?u) = normalized (title ?v)" by code_simp
  have o1: "mset [''4'', ''5''] = mset [''5'', ''4'']" by code_simp
  have o2: "mset [''3'', ''2''] = mset [''2'', ''3'']" by code_simp
  from o1 o2 have "list_all2 (\<lambda>q q'. question q = question q' \<and> correctAnswer q = correctAnswer q'
            \<and> mset (options q) = mset (options q')) (questions ?u) (questions ?v)"
    by (simp add: exampleQuiz_def)
  with t have g: "normalized (title ?u) = normalized (title ?v)
      \<and> list_all2 (\<lambda>q q'. question q = question q' \<and> correctAnswer q = correctAnswer q'
            \<and> mset (options q) = mset (options q')) (questions ?u) (questions ?v)" ..
  have h: "normalized (title ?x) = normalized (title ?y)
      \<and> mset (map questionContent (questions ?x)) = mset (map questionContent (questions ?y))
      \<and> (\<forall>q1 \<in> set (questions ?x). \<forall>q2 \<in> set (questions ?x).
            (\<lambda>x. x) (normalized (question q1)) = (\<lambda>x. x) (normalized (question q2))
            \<longrightarrow> questionContent q1 = questionContent q2)"
    by code_simp
  from fingerprint_permutation [where quiz = ?u and quiz' = ?v and collate = "\<lambda>x. x", THEN conjunct1] g
  have r1: "createContentHash (\<lambda>x. x) ?u = createContentHash (\<lambda>x. x) ?v" by blast
  from fingerprint_permutation [where quiz = ?x and quiz' = ?y and collate = "\<lambda>x. x", THEN conjunct2] h
  have r2: "createContentHash (\<lambda>x. x) ?x = createContentHash (\<lambda>x. x) ?y" by blast
  from r1 r2 show ?thesis ..
qed

text \<open>
  Claim C5 as stated fails: the sort by prompt is stable, so two questions with the same
  prompt and different answers stay in the order of the input, and exchanging them
  changes the content hash.
\<close>

theorem fingerprint_same_prompt_counterexample:
  "mset (questions (exampleQuiz 1 None ''t'' [exampleQuestion ''q'' ''a'', exampleQuestion ''q'' ''b''] 1 5))
     = mset (questions (exampleQuiz 1 None ''t'' [exampleQuestion ''q'' ''b'', exampleQuestion ''q'' ''a''] 1 5))
   \<and> createContentHash (\<lambda>x. x)
       (exampleQuiz 1 None ''t'' [exampleQuestion ''q'' ''a'', exampleQuestion ''q'' ''b''] 1 5)
     \<noteq> createContentHash (\<lambda>x. x)
       (exampleQuiz 1 None ''t'' [exampleQuestion ''q'' ''b'', exampleQuestion ''q'' ''a''] 1 5)"
  by code_simp

subsection \<open>Synchronisation: the invariant and the sweep\<close>

text \<open>The map operations.\<close>

lemma update_fresh: "k \<notin> fst ` set c \<Longrightarrow> AList.update k v c = c @ [(k, v)]"
  by (induction c) auto

lemma delete_filter: "AList.delete k c = filter (\<lambda>e. fst e \<noteq> k) c"
  by (induction c) auto

lemma update_map_snd:
  "map_of c k = Some old \<Longrightarrow> f v = f old \<Longrightarrow>
   map (\<lambda>e. f (snd e)) (AList.update k v c) = map (\<lambda>e. f (snd e)) c"
  by (induction c) (auto split: if_splits)

lemma in_set_update: "x \<in> set (AList.update k v c) \<Longrightarrow> x = (k, v) \<or> x \<in> set c"
  by (induction c) (auto split: if_splits)

lemma wf_collection_update:
  "wf_collection c \<Longrightarrow> id' v = k \<Longrightarrow> wf_collection (AList.update k v c)"
  unfolding wf_collection_def list_all_iff
  by (auto simp: distinct_update dest!: in_set_update)

lemma wf_collection_filter: "wf_collection c \<Longrightarrow> wf_collection (filter P c)"
  unfolding wf_collection_def list_all_iff by (auto simp: distinct_map_filter)

lemma wf_storage_filter:
  "wf_storage s \<Longrightarrow> wf_storage (s\<lparr>quizCollection := filter P (quizCollection s)\<rparr>)"
  unfolding wf_storage_def by (simp add: wf_collection_filter list_all_iff)

lemma wf_storage_update:
  assumes "wf_storage s" and "id' v = k" and "k < n" and "quizCurrentId s \<le> n"
    and "quizCollection s' = AList.update k v (quizCollection s)" and "quizCurrentId s' = n"
  shows "wf_storage s'"
proof -
  have "fst x < n" if "x \<in> set (AList.update k v (quizCollection s))" for x
    using in_set_update [OF that] assms by (auto simp: wf_storage_def list_all_iff)
  with assms show ?thesis
    by (simp add: wf_storage_def wf_collection_update list_all_iff)
qed

lemma wf_storage_createQuiz: "wf_storage s \<Longrightarrow> wf_storage (snd (createQuiz e s quiz))"
  by (rule wf_storage_update [where k = "quizCurrentId s" and n = "quizCurrentId s + 1"])
    (simp_all add: createQuiz_def Let_def)

lemma wf_storage_updateQuiz: "wf_storage s \<Longrightarrow> wf_storage (snd (updateQuiz s i upd))"
proof (cases "map_of (quizCollection s) i")
  case None
  then show "wf_storage s \<Longrightarrow> ?thesis" by (simp add: updateQuiz_def)
next
  case (Some existingQuiz)
  assume w: "wf_storage s"
  from Some have "(i, existingQuiz) \<in> set (quizCollection s)" by (rule map_of_SomeD)
  with w have i: "id' existingQuiz = i" "i < quizCurrentId s"
    by (auto simp: wf_storage_def wf_collection_def list_all_iff)
  then have "id' (mergeUpdate existingQuiz upd) = i" by (simp add: mergeUpdate_def)
  from w this i(2) order_refl show ?thesis
    by (rule wf_storage_update) (simp_all add: updateQuiz_def Let_def Some)
qed

lemma wf_storage_deleteQuiz: "wf_storage s \<Longrightarrow> wf_storage (snd (deleteQuiz s i))"
  by (simp add: deleteQuiz_def delete_filter wf_storage_filter)

lemma wf_storage_syncPublicStep: "wf_storage s \<Longrightarrow> wf_storage (syncPublicStep e q s)"
  by (simp add: syncPublicStep_def wf_storage_createQuiz wf_storage_updateQuiz split: option.splits)

lemma wf_storage_syncPrivateStep: "wf_storage s \<Longrightarrow> wf_storage (syncPrivateStep q s)"
  by (simp add: syncPrivateStep_def wf_storage_deleteQuiz split: option.splits)

lemma wf_storage_fold_public: "wf_storage s \<Longrightarrow> wf_storage (fold (syncPublicStep e) qs s)"
  by (induction qs arbitrary: s) (simp_all add: wf_storage_syncPublicStep)

lemma wf_storage_fold_private: "wf_storage s \<Longrightarrow> wf_storage (fold syncPrivateStep qs s)"
  by (induction qs arbitrary: s) (simp_all add: wf_storage_syncPrivateStep)

text \<open>The sweep of \<^verbatim>\<open>deletePrivateQuizzes\<close> keeps exactly the entries whose quiz is public.\<close>

lemma fold_deletePrivateStep:
  "snd (fold deletePrivateStep qs (n, s))
     = s\<lparr>quizCollection := filter (\<lambda>e. fst e \<notin> id' ` set qs) (quizCollection s)\<rparr>"
proof (induction qs arbitrary: n s)
  case Nil
  then show ?case by simp
next
  case (Cons q qs)
  have "deletePrivateStep q (n, s)
      = (if map_of (quizCollection s) (id' q) \<noteq> None then n + 1 else n,
         s\<lparr>quizCollection := filter (\<lambda>e. fst e \<noteq> id' q) (quizCollection s)\<rparr>)"
    by (simp add: deletePrivateStep_def deleteQuiz_def delete_filter)
  then show ?case
    by (simp add: Cons.IH)
qed

lemma wf_private_keys:
  assumes "wf_collection c" and "e \<in> set c"
  shows "fst e \<in> id' ` set (filter (\<lambda>quiz. \<not> truthy_bool (isPublic quiz)) (map snd c))
         \<longleftrightarrow> \<not> truthy_bool (isPublic (snd e))"
proof
  assume "fst e \<in> id' ` set (filter (\<lambda>quiz. \<not> truthy_bool (isPublic quiz)) (map snd c))"
  then obtain e' where e': "e' \<in> set c" "\<not> truthy_bool (isPublic (snd e'))" "fst e = id' (snd e')"
    by auto
  with assms have "fst e' = fst e" by (auto simp: wf_collection_def list_all_iff)
  with assms e' have "e' = e"
    unfolding wf_collection_def by (metis eq_key_imp_eq_value prod.collapse)
  with e' show "\<not> truthy_bool (isPublic (snd e))" by simp
next
  assume "\<not> truthy_bool (isPublic (snd e))"
  moreover from assms have "fst e = id' (snd e)" by (auto simp: wf_collection_def list_all_iff)
  ultimately show "fst e \<in> id' ` set (filter (\<lambda>quiz. \<not> truthy_bool (isPublic quiz)) (map snd c))"
    using assms(2) by auto
qed

lemma deletePrivateQuizzes_filter:
  assumes "wf_storage s"
  shows "snd (deletePrivateQuizzes s)
     = s\<lparr>quizCollection := filter (\<lambda>e. truthy_bool (isPublic (snd e))) (quizCollection s)\<rparr>"
proof -
  from assms have w: "wf_collection (quizCollection s)" by (simp add: wf_storage_def)
  have "filter (\<lambda>e. fst e \<notin> id' ` set (filter (\<lambda>quiz. \<not> truthy_bool (isPublic quiz)) (map snd (quizCollection s)))) (quizCollection s)
      = filter (\<lambda>e. truthy_bool (isPublic (snd e))) (quizCollection s)"
  proof (rule filter_cong [OF refl])
    fix e
    assume "e \<in> set (quizCollection s)"
    from wf_private_keys [OF w this]
    show "(fst e \<notin> id' ` set (filter (\<lambda>quiz. \<not> truthy_bool (isPublic quiz)) (map snd (quizCollection s))))
        = truthy_bool (isPublic (snd e))" by blast
  qed
  then show ?thesis
    by (simp add: deletePrivateQuizzes_def Let_def allValues_def fold_deletePrivateStep)
qed

text \<open>How the steps of the two loops change the quizzes that carry a given \<^verbatim>\<open>uniqueId\<close>.\<close>

lemma find_None_set: "find P xs = None \<Longrightarrow> x \<in> set xs \<Longrightarrow> \<not> P x"
  by (induction xs) (auto split: if_splits)

lemma withUniqueId_collection:
  "withUniqueId s u = map snd (filter (\<lambda>e. uniqueId (snd e) = Some u) (quizCollection s))"
  by (simp add: withUniqueId_def allValues_def filter_map comp_def)

lemma in_withUniqueId:
  "quiz \<in> set (withUniqueId s u) \<longleftrightarrow> quiz \<in> set (allValues s) \<and> uniqueId quiz = Some u"
  by (simp add: withUniqueId_def)

lemma length_filter_map_snd:
  "length (filter (\<lambda>e. f (snd e) = x) c) = length (filter (\<lambda>y. y = x) (map (\<lambda>e. f (snd e)) c))"
  by (induction c) auto

lemma withUniqueId_update:
  assumes "map_of (quizCollection s) k = Some old" and "uniqueId v = uniqueId old"
    and "quizCollection s' = AList.update k v (quizCollection s)"
  shows "length (withUniqueId s' u) = length (withUniqueId s u)"
  using update_map_snd [OF assms(1), of uniqueId v, OF assms(2)] assms(3)
  by (simp add: withUniqueId_collection length_filter_map_snd)

lemma two_in_filter:
  assumes "x \<in> set xs" "y \<in> set xs" "x \<noteq> y" "P x" "P y"
  shows "2 \<le> length (filter P xs)"
proof -
  have "{x, y} \<subseteq> set (filter P xs)" using assms by simp
  then have "card {x, y} \<le> card (set (filter P xs))" by (intro card_mono) simp_all
  also have "\<dots> \<le> length (filter P xs)" by (rule card_length)
  finally show ?thesis using assms(3) by simp
qed

lemma getQuizByUniqueId_None:
  "getQuizByUniqueId s u = None \<Longrightarrow> withUniqueId s u = []"
  using find_None_set [of "\<lambda>quiz. uniqueId quiz = Some u" "allValues s"]
  by (auto simp: getQuizByUniqueId_def withUniqueId_def filter_empty_conv)

lemma getQuizByUniqueId_SomeD:
  "getQuizByUniqueId s u = Some q \<Longrightarrow> q \<in> set (allValues s) \<and> uniqueId q = Some u"
  using find_Some_set [of "\<lambda>quiz. uniqueId quiz = Some u" "allValues s" q]
  by (simp add: getQuizByUniqueId_def)

lemma createQuiz_collection:
  assumes "wf_storage s"
  shows "quizCollection (snd (createQuiz e s q))
     = quizCollection s @ [(quizCurrentId s, fst (createQuiz e s q))]"
proof -
  from assms have "quizCurrentId s \<notin> fst ` set (quizCollection s)"
    by (auto simp: wf_storage_def list_all_iff)
  then show ?thesis by (simp add: createQuiz_def Let_def update_fresh)
qed

lemma syncPublicStep_unique:
  assumes w: "wf_storage s" and l: "length (withUniqueId s u) \<le> 1"
  shows "length (withUniqueId (syncPublicStep e q s) u) \<le> 1"
proof (cases "truthy_string (uniqueId q)")
  case False
  with l show ?thesis by (simp add: syncPublicStep_def)
next
  case True
  then obtain u' where u': "uniqueId q = Some u'" by (auto simp: truthy_string_def split: option.splits)
  show ?thesis
  proof (cases "getQuizByUniqueId s u'")
    case None
    have n: "uniqueId (fst (createQuiz e s q)) = Some u'"
      using True u' by (simp add: createQuiz_def Let_def)
    have "withUniqueId (snd (createQuiz e s q)) u
        = withUniqueId s u @ (if u' = u then [fst (createQuiz e s q)] else [])"
      by (simp add: withUniqueId_collection createQuiz_collection [OF w] n)
    moreover have "u' = u \<Longrightarrow> withUniqueId s u = []"
      using None by (simp add: getQuizByUniqueId_None)
    ultimately show ?thesis
      using l True u' None by (cases "u' = u") (simp_all add: syncPublicStep_def)
  next
    case (Some existingQuiz)
    then have x: "existingQuiz \<in> set (allValues s)" "uniqueId existingQuiz = Some u'"
      by (simp_all add: getQuizByUniqueId_SomeD)
    with w have m: "map_of (quizCollection s) (id' existingQuiz) = Some existingQuiz"
      by (simp add: wf_storage_def allValues_def wf_collection_map_of)
    have "uniqueId (mergeUpdate existingQuiz (asUpdate q)) = uniqueId existingQuiz"
      using u' x by (simp add: mergeUpdate_def asUpdate_def)
    from m this have "length (withUniqueId (syncPublicStep e q s) u) = length (withUniqueId s u)"
      by (rule withUniqueId_update)
        (use True u' Some m in \<open>simp add: syncPublicStep_def updateQuiz_def Let_def\<close>)
    with l show ?thesis by simp
  qed
qed

lemma fold_syncPublicStep_unique:
  "wf_storage s \<Longrightarrow> length (withUniqueId s u) \<le> 1 \<Longrightarrow>
   length (withUniqueId (fold (syncPublicStep e) qs s) u) \<le> 1"
proof (induction qs arbitrary: s)
  case Nil
  then show ?case by simp
next
  case (Cons q qs)
  from Cons.prems have "wf_storage (syncPublicStep e q s)"
    and "length (withUniqueId (syncPublicStep e q s) u) \<le> 1"
    by (simp_all only: wf_storage_syncPublicStep syncPublicStep_unique)
  then have "length (withUniqueId (fold (syncPublicStep e) qs (syncPublicStep e q s)) u) \<le> 1"
    by (rule Cons.IH)
  then show ?case by simp
qed

lemma syncPrivateStep_sublist:
  "\<exists>P. quizCollection (syncPrivateStep q s) = filter P (quizCollection s)"
proof (cases "quizCollection (syncPrivateStep q s) = quizCollection s")
  case True
  then have "quizCollection (syncPrivateStep q s) = filter (\<lambda>e. True) (quizCollection s)" by simp
  then show ?thesis by blast
next
  case False
  then show ?thesis
    by (auto simp: syncPrivateStep_def deleteQuiz_def delete_filter split: option.splits if_splits)
qed

lemma withUniqueId_filter:
  assumes "quizCollection s' = filter P (quizCollection s)"
  shows "length (withUniqueId s' u) \<le> length (withUniqueId s u)"
proof -
  let ?Q = "\<lambda>e. uniqueId (snd e) = Some u"
  have "filter ?Q (filter P (quizCollection s)) = filter P (filter ?Q (quizCollection s))"
    by (simp add: conj_commute)
  then have e: "withUniqueId s' u = map snd (filter P (filter ?Q (quizCollection s)))"
    by (simp only: withUniqueId_collection assms)
  have w: "withUniqueId s u = map snd (filter ?Q (quizCollection s))"
    by (rule withUniqueId_collection)
  show "length (withUniqueId s' u) \<le> length (withUniqueId s u)"
    unfolding e w length_map by (rule length_filter_le)
qed

lemma syncPrivateStep_unique:
  assumes "length (withUniqueId s u) \<le> 1"
  shows "length (withUniqueId (syncPrivateStep q s) u) \<le> 1"
proof -
  from syncPrivateStep_sublist obtain P
    where "quizCollection (syncPrivateStep q s) = filter P (quizCollection s)" by blast
  from withUniqueId_filter [OF this, of u] assms show ?thesis by simp
qed

lemma syncPrivateStep_none:
  assumes "withUniqueId s u = []"
  shows "withUniqueId (syncPrivateStep q s) u = []"
proof -
  from syncPrivateStep_sublist obtain P
    where "quizCollection (syncPrivateStep q s) = filter P (quizCollection s)" by blast
  from withUniqueId_filter [OF this, of u] assms show ?thesis by simp
qed

lemma fold_syncPrivateStep_unique:
  "wf_storage s \<Longrightarrow> length (withUniqueId s u) \<le> 1 \<Longrightarrow>
   wf_storage (fold syncPrivateStep qs s) \<and> length (withUniqueId (fold syncPrivateStep qs s) u) \<le> 1"
proof (induction qs arbitrary: s)
  case Nil
  then show ?case by simp
next
  case (Cons q qs)
  from Cons.prems have "wf_storage (syncPrivateStep q s)"
    and "length (withUniqueId (syncPrivateStep q s) u) \<le> 1"
    by (simp_all only: wf_storage_syncPrivateStep syncPrivateStep_unique)
  then have "wf_storage (fold syncPrivateStep qs (syncPrivateStep q s))
     \<and> length (withUniqueId (fold syncPrivateStep qs (syncPrivateStep q s)) u) \<le> 1"
    by (rule Cons.IH)
  then show ?case by simp
qed

lemma fold_syncPrivateStep_none:
  "withUniqueId s u = [] \<Longrightarrow> withUniqueId (fold syncPrivateStep qs s) u = []"
proof (induction qs arbitrary: s)
  case Nil
  then show ?case by simp
next
  case (Cons q qs)
  from Cons.prems have "withUniqueId (syncPrivateStep q s) u = []" by (rule syncPrivateStep_none)
  then have "withUniqueId (fold syncPrivateStep qs (syncPrivateStep q s)) u = []" by (rule Cons.IH)
  then show ?case by simp
qed

lemma syncPrivateStep_removes:
  assumes w: "wf_storage s" and l: "length (withUniqueId s u) \<le> 1"
    and p: "\<not> truthy_bool (isPublic q)" "uniqueId q = Some u" "u \<noteq> []"
  shows "withUniqueId (syncPrivateStep q s) u = []"
proof (cases "getQuizByUniqueId s u")
  case None
  then have "withUniqueId s u = []" by (rule getQuizByUniqueId_None)
  then show ?thesis by (rule syncPrivateStep_none)
next
  case (Some existingQuiz)
  then have x: "existingQuiz \<in> set (allValues s)" "uniqueId existingQuiz = Some u"
    by (simp_all add: getQuizByUniqueId_SomeD)
  have s': "quizCollection (syncPrivateStep q s)
      = filter (\<lambda>e. fst e \<noteq> id' existingQuiz) (quizCollection s)"
    using p Some by (simp add: syncPrivateStep_def truthy_string_def deleteQuiz_def delete_filter)
  have "quiz \<notin> set (withUniqueId (syncPrivateStep q s) u)" for quiz
  proof
    assume a: "quiz \<in> set (withUniqueId (syncPrivateStep q s) u)"
    then obtain k where k: "(k, quiz) \<in> set (quizCollection s)" "k \<noteq> id' existingQuiz"
      by (auto simp: withUniqueId_collection s')
    with w have "id' quiz = k" by (auto simp: wf_storage_def wf_collection_def list_all_iff)
    with k have ne: "quiz \<noteq> existingQuiz" by auto
    from a have "uniqueId quiz = Some u" by (simp add: in_withUniqueId)
    moreover from k(1) have "quiz \<in> set (allValues s)"
      by (auto simp: allValues_def intro: rev_image_eqI)
    ultimately have "2 \<le> length (withUniqueId s u)"
      unfolding withUniqueId_def using x ne by (intro two_in_filter [of quiz _ existingQuiz]) auto
    with l show False by simp
  qed
  then show ?thesis by (cases "withUniqueId (syncPrivateStep q s) u") auto
qed

lemma withUniqueId_Nil_find:
  "withUniqueId s u = [] \<Longrightarrow> getQuizByUniqueId s u = None"
  by (simp add: withUniqueId_def getQuizByUniqueId_def find_None_iff filter_empty_conv)

lemma sync_storage:
  "snd (syncQuizzes e s qs)
     = snd (deletePrivateQuizzes
         (fold syncPrivateStep qs
            (fold (syncPublicStep e) (filter (\<lambda>quiz. isPublic quiz = Some True) qs) s)))"
  by (simp add: syncQuizzes_def Let_def)

lemma deletePrivateQuizzes_unique:
  assumes "wf_storage s"
  shows "length (withUniqueId (snd (deletePrivateQuizzes s)) u) \<le> length (withUniqueId s u)"
  by (rule withUniqueId_filter) (simp add: deletePrivateQuizzes_filter [OF assms])

text \<open>
  Claim C3, as the code has it. After \<^verbatim>\<open>syncQuizzes\<close> every stored quiz has
  \<^verbatim>\<open>isPublic = true\<close>. If the batch holds a quiz that is not public with the \<^verbatim>\<open>uniqueId\<close>
  \<open>u\<close>, and at most one stored quiz carried \<open>u\<close> before the call, then no stored quiz
  carries \<open>u\<close> afterwards. (The second loop deletes one stored quiz for each such entry
  of the batch: the first that carries \<open>u\<close>.)
\<close>

theorem sync_removes_private:
  "wf_storage s \<longrightarrow>
     (\<forall>quiz \<in> set (allValues (snd (syncQuizzes e s quizzesToSync))). isPublic quiz = Some True)
     \<and> (quizToSync \<in> set quizzesToSync \<and> \<not> truthy_bool (isPublic quizToSync)
          \<and> uniqueId quizToSync = Some u \<and> u \<noteq> [] \<and> length (withUniqueId s u) \<le> 1
        \<longrightarrow> withUniqueId (snd (syncQuizzes e s quizzesToSync)) u = []
            \<and> getQuizByUniqueId (snd (syncQuizzes e s quizzesToSync)) u = None)"
proof (intro impI conjI)
  assume w: "wf_storage s"
  let ?s1 = "fold (syncPublicStep e) (filter (\<lambda>quiz. isPublic quiz = Some True) quizzesToSync) s"
  let ?s2 = "fold syncPrivateStep quizzesToSync ?s1"
  from w have w1: "wf_storage ?s1" by (rule wf_storage_fold_public)
  then have w2: "wf_storage ?s2" by (rule wf_storage_fold_private)
  have s3: "snd (syncQuizzes e s quizzesToSync)
      = ?s2\<lparr>quizCollection := filter (\<lambda>e. truthy_bool (isPublic (snd e))) (quizCollection ?s2)\<rparr>"
    by (simp only: sync_storage deletePrivateQuizzes_filter [OF w2])
  show "\<forall>quiz \<in> set (allValues (snd (syncQuizzes e s quizzesToSync))). isPublic quiz = Some True"
    unfolding s3 by (auto simp: allValues_def truthy_bool_def split: option.splits)
  assume p: "quizToSync \<in> set quizzesToSync \<and> \<not> truthy_bool (isPublic quizToSync)
          \<and> uniqueId quizToSync = Some u \<and> u \<noteq> [] \<and> length (withUniqueId s u) \<le> 1"
  then have pm: "quizToSync \<in> set quizzesToSync" and pp: "\<not> truthy_bool (isPublic quizToSync)"
    and pu: "uniqueId quizToSync = Some u" "u \<noteq> []" and pl: "length (withUniqueId s u) \<le> 1"
    by blast+
  from pm obtain before after where b: "quizzesToSync = before @ quizToSync # after"
    by (auto dest: split_list)
  let ?sb = "fold syncPrivateStep before ?s1"
  from w pl have "length (withUniqueId ?s1 u) \<le> 1" by (rule fold_syncPublicStep_unique)
  with w1 have "wf_storage ?sb \<and> length (withUniqueId ?sb u) \<le> 1"
    by (rule fold_syncPrivateStep_unique)
  then have "wf_storage ?sb" and "length (withUniqueId ?sb u) \<le> 1" by blast+
  then have "withUniqueId (syncPrivateStep quizToSync ?sb) u = []"
    using pp pu by (rule syncPrivateStep_removes)
  then have "withUniqueId (fold syncPrivateStep after (syncPrivateStep quizToSync ?sb)) u = []"
    by (rule fold_syncPrivateStep_none)
  then have "withUniqueId ?s2 u = []" by (simp add: b)
  with deletePrivateQuizzes_unique [OF w2, of u]
  show n: "withUniqueId (snd (syncQuizzes e s quizzesToSync)) u = []"
    by (simp add: sync_storage)
  then show "getQuizByUniqueId (snd (syncQuizzes e s quizzesToSync)) u = None"
    by (rule withUniqueId_Nil_find)
qed

theorem sync_removes_private_witness:
  "allValues (snd (syncQuizzes exampleEnv
      (snd (createQuiz exampleEnv emptyStorage (exampleSubmission ''u1'' ''T'' True None (Some 1))))
      [exampleSubmission ''u1'' ''T'' False None (Some 1)])) = []
   \<and> getQuizByUniqueId (snd (syncQuizzes exampleEnv
      (snd (createQuiz exampleEnv emptyStorage (exampleSubmission ''u1'' ''T'' True None (Some 1))))
      [exampleSubmission ''u1'' ''T'' False None (Some 1)])) ''u1'' = None"
proof -
  let ?s = "snd (createQuiz exampleEnv emptyStorage (exampleSubmission ''u1'' ''T'' True None (Some 1)))"
  let ?p = "exampleSubmission ''u1'' ''T'' False None (Some 1)"
  have h: "wf_storage ?s" "?p \<in> set [?p] \<and> \<not> truthy_bool (isPublic ?p)
          \<and> uniqueId ?p = Some ''u1'' \<and> ''u1'' \<noteq> [] \<and> length (withUniqueId ?s ''u1'') \<le> 1"
    by code_simp+
  have v: "allValues (snd (syncQuizzes exampleEnv ?s [?p])) = []" by code_simp
  from sync_removes_private [of ?s exampleEnv "[?p]" ?p "''u1''"] h v show ?thesis by blast
qed

text \<open>
  Claim C3 as stated fails when two stored quizzes carry the \<^verbatim>\<open>uniqueId\<close>: \<^verbatim>\<open>createQuiz\<close>
  called twice with the same \<^verbatim>\<open>uniqueId\<close> stores two public quizzes; a sync whose batch
  marks that \<^verbatim>\<open>uniqueId\<close> private deletes the first of them and the second stays.
\<close>

theorem sync_private_duplicates_counterexample:
  "map uniqueId (allValues
      (snd (createQuiz exampleEnv
         (snd (createQuiz exampleEnv emptyStorage (exampleSubmission ''u1'' ''T'' True None (Some 1))))
         (exampleSubmission ''u1'' ''T'' True None (Some 1))))) = [Some ''u1'', Some ''u1'']
   \<and> map uniqueId (allValues (snd (syncQuizzes exampleEnv
      (snd (createQuiz exampleEnv
         (snd (createQuiz exampleEnv emptyStorage (exampleSubmission ''u1'' ''T'' True None (Some 1))))
         (exampleSubmission ''u1'' ''T'' True None (Some 1))))
      [exampleSubmission ''u1'' ''T'' False None (Some 1)]))) = [Some ''u1'']"
  by code_simp

subsection \<open>Synchronisation of one public quiz\<close>

lemma update_last:
  "k \<notin> fst ` set xs \<Longrightarrow> AList.update k v (xs @ [(k, w)]) = xs @ [(k, v)]"
  by (induction xs) auto

lemma map_of_last: "k \<notin> fst ` set xs \<Longrightarrow> map_of (xs @ [(k, v)]) k = Some v"
  by (induction xs) auto

lemma find_append_last:
  "\<forall>x \<in> set xs. \<not> P x \<Longrightarrow> P y \<Longrightarrow> find P (xs @ [y]) = Some y"
  by (induction xs) auto

lemma wf_storage_deletePrivateQuizzes:
  "wf_storage s \<Longrightarrow> wf_storage (snd (deletePrivateQuizzes s))"
  by (simp add: deletePrivateQuizzes_filter wf_storage_filter)

lemma wf_storage_syncQuizzes: "wf_storage s \<Longrightarrow> wf_storage (snd (syncQuizzes e s qs))"
  unfolding sync_storage
  by (intro wf_storage_deletePrivateQuizzes wf_storage_fold_private wf_storage_fold_public)

lemma sync_single_public:
  assumes w: "wf_storage s" and p: "isPublic q = Some True"
  shows "snd (syncQuizzes e s [q])
     = (syncPublicStep e q s)\<lparr>quizCollection :=
          filter (\<lambda>e. truthy_bool (isPublic (snd e))) (quizCollection (syncPublicStep e q s))\<rparr>"
proof -
  from w have "wf_storage (syncPublicStep e q s)" by (rule wf_storage_syncPublicStep)
  from deletePrivateQuizzes_filter [OF this] p show ?thesis
    by (simp add: sync_storage syncPrivateStep_def truthy_bool_def)
qed

text \<open>The storage after a sync that creates the only quiz of its batch.\<close>

lemma sync_creates:
  assumes w: "wf_storage s" and n: "withUniqueId s u = []" and u: "u \<noteq> []"
    and q: "uniqueId q = Some u" "isPublic q = Some True"
  shows "quizCollection (snd (syncQuizzes e s [q]))
       = filter (\<lambda>e. truthy_bool (isPublic (snd e))) (quizCollection s)
         @ [(quizCurrentId s, fst (createQuiz e s q))]"
    and "quizCurrentId (snd (syncQuizzes e s [q])) = quizCurrentId s + 1"
proof -
  from n have "getQuizByUniqueId s u = None" by (rule withUniqueId_Nil_find)
  with u q have st: "syncPublicStep e q s = snd (createQuiz e s q)"
    by (simp add: syncPublicStep_def truthy_string_def)
  have "isPublic (fst (createQuiz e s q)) = Some True"
    using q by (simp add: createQuiz_def Let_def)
  then show "quizCollection (snd (syncQuizzes e s [q]))
       = filter (\<lambda>e. truthy_bool (isPublic (snd e))) (quizCollection s)
         @ [(quizCurrentId s, fst (createQuiz e s q))]"
    by (simp add: sync_single_public [OF w q(2)] st createQuiz_collection [OF w] truthy_bool_def)
  show "quizCurrentId (snd (syncQuizzes e s [q])) = quizCurrentId s + 1"
    by (simp add: sync_single_public [OF w q(2)] st) (simp add: createQuiz_def Let_def)
qed

text \<open>
  Claim C2. In a storage where no quiz carries the \<^verbatim>\<open>uniqueId\<close> \<open>u\<close>, a sync of a batch of
  one public quiz with this \<^verbatim>\<open>uniqueId\<close> and no version stores it with version 1, and
  \<^verbatim>\<open>getQuizByUniqueId\<close> returns it; a second sync of one public quiz with the same
  \<^verbatim>\<open>uniqueId\<close> leaves a quiz with version 2 and the title of the second submission.
\<close>

theorem sync_then_get:
  "wf_storage s \<and> withUniqueId s u = [] \<and> u \<noteq> []
   \<and> uniqueId q = Some u \<and> isPublic q = Some True \<and> version q = None
   \<and> uniqueId q' = Some u \<and> isPublic q' = Some True
   \<longrightarrow> (\<exists>r. getQuizByUniqueId (snd (syncQuizzes e s [q])) u = Some r \<and> version r = Some 1)
     \<and> (\<exists>r'. getQuizByUniqueId (snd (syncQuizzes e' (snd (syncQuizzes e s [q])) [q'])) u = Some r'
            \<and> version r' = Some 2 \<and> title r' = title q')"
proof (intro impI)
  assume a: "wf_storage s \<and> withUniqueId s u = [] \<and> u \<noteq> []
   \<and> uniqueId q = Some u \<and> isPublic q = Some True \<and> version q = None
   \<and> uniqueId q' = Some u \<and> isPublic q' = Some True"
  then have w: "wf_storage s" and n: "withUniqueId s u = []" and u: "u \<noteq> []"
    and q: "uniqueId q = Some u" "isPublic q = Some True" and v: "version q = None"
    and q': "uniqueId q' = Some u" "isPublic q' = Some True"
    by blast+
  let ?new = "fst (createQuiz e s q)"
  let ?i = "quizCurrentId s"
  let ?kept = "filter (\<lambda>e. truthy_bool (isPublic (snd e))) (quizCollection s)"
  let ?s1 = "snd (syncQuizzes e s [q])"
  have new: "uniqueId ?new = Some u" "version ?new = Some 1" "id' ?new = ?i" "isPublic ?new = Some True"
    using q v u by (simp_all add: createQuiz_def Let_def truthy_string_def truthy_number_def)
  have c1: "quizCollection ?s1 = ?kept @ [(?i, ?new)]"
    using w n u q by (rule sync_creates)
  have none: "\<forall>x \<in> set (map snd ?kept). \<not> uniqueId x = Some u"
  proof
    fix x assume "x \<in> set (map snd ?kept)"
    then have "x \<in> set (allValues s)" by (auto simp: allValues_def)
    with n show "\<not> uniqueId x = Some u" by (auto simp: withUniqueId_def filter_empty_conv)
  qed
  from find_append_last [OF none, of ?new] new(1)
  have g1: "getQuizByUniqueId ?s1 u = Some ?new"
    by (simp add: getQuizByUniqueId_def allValues_def c1)
  from w have w1: "wf_storage ?s1" by (rule wf_storage_syncQuizzes)
  from w have fresh: "?i \<notin> fst ` set ?kept" by (auto simp: wf_storage_def list_all_iff)
  then have m1: "map_of (quizCollection ?s1) ?i = Some ?new"
    unfolding c1 by (rule map_of_last)
  let ?upd = "mergeUpdate ?new (asUpdate q')"
  have upd: "uniqueId ?upd = Some u" "version ?upd = Some 2" "title ?upd = title q'"
    "isPublic ?upd = Some True"
    using new q' by (simp_all add: mergeUpdate_def asUpdate_def truthy_number_def)
  have st: "syncPublicStep e' q' ?s1 = ?s1\<lparr>quizCollection := ?kept @ [(?i, ?upd)]\<rparr>"
    using q' u g1 new(3) m1 fresh
    by (simp add: syncPublicStep_def truthy_string_def updateQuiz_def Let_def c1 update_last)
  have c2: "quizCollection (snd (syncQuizzes e' ?s1 [q'])) = ?kept @ [(?i, ?upd)]"
    using upd(4) by (simp add: sync_single_public [OF w1 q'(2)] st truthy_bool_def)
  from find_append_last [OF none, of ?upd] upd(1)
  have g2: "getQuizByUniqueId (snd (syncQuizzes e' ?s1 [q'])) u = Some ?upd"
    by (simp add: getQuizByUniqueId_def allValues_def c2)
  from g1 new(2) g2 upd(2,3)
  show "(\<exists>r. getQuizByUniqueId ?s1 u = Some r \<and> version r = Some 1)
     \<and> (\<exists>r'. getQuizByUniqueId (snd (syncQuizzes e' ?s1 [q'])) u = Some r'
            \<and> version r' = Some 2 \<and> title r' = title q')"
    by blast
qed

theorem sync_then_get_witness:
  "map_option version
     (getQuizByUniqueId
        (snd (syncQuizzes exampleEnv emptyStorage [exampleSubmission ''u1'' ''Title'' True None None]))
        ''u1'') = Some (Some 1)
   \<and> map_option (\<lambda>r. (version r, title r))
     (getQuizByUniqueId
        (snd (syncQuizzes exampleEnv
           (snd (syncQuizzes exampleEnv emptyStorage [exampleSubmission ''u1'' ''Title'' True None None]))
           [exampleSubmission ''u1'' ''New title'' True None None]))
        ''u1'') = Some (Some 2, ''New title'')"
proof -
  let ?q = "exampleSubmission ''u1'' ''Title'' True None None"
  let ?q' = "exampleSubmission ''u1'' ''New title'' True None None"
  have h: "wf_storage emptyStorage \<and> withUniqueId emptyStorage ''u1'' = [] \<and> ''u1'' \<noteq> []
   \<and> uniqueId ?q = Some ''u1'' \<and> isPublic ?q = Some True \<and> version ?q = None
   \<and> uniqueId ?q' = Some ''u1'' \<and> isPublic ?q' = Some True"
    by code_simp
  have t: "title ?q' = ''New title''" by code_simp
  from sync_then_get [of emptyStorage "''u1''" ?q ?q' exampleEnv exampleEnv] h t
  show ?thesis by auto
qed

subsection \<open>Duplicate removal: the final loop and pass 1\<close>

lemma fold_deleteStep_collection:
  "snd (fold deleteStep rs (n, c)) = filter (\<lambda>e. fst e \<notin> id' ` set rs) c"
proof (induction rs arbitrary: n c)
  case Nil
  then show ?case by simp
next
  case (Cons r rs)
  have "snd (fold deleteStep (r # rs) (n, c))
      = snd (fold deleteStep rs (fst (deleteStep r (n, c)), filter (\<lambda>e. fst e \<noteq> id' r) c))"
    by (simp add: deleteStep_def delete_filter)
  then show ?case by (simp add: Cons.IH conj_commute)
qed

lemma removeDuplicateQuizzes_none:
  "duplicatesRemoved (findDuplicates collate (allValues s)) = []
   \<Longrightarrow> removeDuplicateQuizzes collate s = (0, s)"
  by (simp add: removeDuplicateQuizzes_def)

lemma removeDuplicateQuizzes_collection:
  "quizCollection (snd (removeDuplicateQuizzes collate s))
     = filter (\<lambda>e. fst e \<notin> id' ` set (duplicatesRemoved (findDuplicates collate (allValues s))))
         (quizCollection s)"
  by (simp add: removeDuplicateQuizzes_def Let_def fold_deleteStep_collection)

text \<open>Pass 1 keeps its invariant.\<close>

lemma pass1_inv_initial: "pass1_inv [] initialState"
  by (simp add: pass1_inv_def initialState_def)

lemma pass1Step_cases:
  "\<not> truthy_string (uniqueId quiz) \<Longrightarrow>
     pass1Step quiz st = st\<lparr>uniqueQuizIds := insert (id' quiz) (uniqueQuizIds st)\<rparr>"
  "truthy_string (uniqueId quiz) \<Longrightarrow> uniqueIdMap st (the (uniqueId quiz)) = None \<Longrightarrow>
     pass1Step quiz st
       = st\<lparr>uniqueIdMap := (uniqueIdMap st)(the (uniqueId quiz) \<mapsto> quiz),
            uniqueQuizIds := insert (id' quiz) (uniqueQuizIds st)\<rparr>"
  "truthy_string (uniqueId quiz) \<Longrightarrow> uniqueIdMap st (the (uniqueId quiz)) = Some existingQuiz \<Longrightarrow>
   keepNew quiz existingQuiz \<Longrightarrow>
     pass1Step quiz st
       = st\<lparr>uniqueQuizIds := insert (id' quiz) (uniqueQuizIds st - {id' existingQuiz}),
            uniqueIdMap := (uniqueIdMap st)(the (uniqueId quiz) \<mapsto> quiz),
            duplicatesRemoved := duplicatesRemoved st @ [existingQuiz]\<rparr>"
  "truthy_string (uniqueId quiz) \<Longrightarrow> uniqueIdMap st (the (uniqueId quiz)) = Some existingQuiz \<Longrightarrow>
   \<not> keepNew quiz existingQuiz \<Longrightarrow>
     pass1Step quiz st = st\<lparr>duplicatesRemoved := duplicatesRemoved st @ [quiz]\<rparr>"
  by (simp_all add: pass1Step_def)

lemma truthy_string_the: "truthy_string x \<Longrightarrow> x = Some (the x)"
  by (cases x) (simp_all add: truthy_string_def)

lemma pass1_invI:
  assumes "uniqueQuizIds st \<subseteq> id' ` set done"
    and "\<And>u quiz. uniqueIdMap st u = Some quiz \<Longrightarrow> quiz \<in> set done \<and> uniqueId quiz = Some u"
    and "\<And>quiz. quiz \<in> set done \<Longrightarrow> truthy_string (uniqueId quiz) \<Longrightarrow> id' quiz \<in> uniqueQuizIds st
            \<Longrightarrow> uniqueIdMap st (the (uniqueId quiz)) = Some quiz"
    and "id' ` set (duplicatesRemoved st) = id' ` set done - uniqueQuizIds st"
    and "contentHashMap st = Map.empty"
  shows "pass1_inv done st"
  using assms unfolding pass1_inv_def by blast

lemma pass1_invD:
  assumes "pass1_inv done st"
  shows "uniqueQuizIds st \<subseteq> id' ` set done"
    and "\<And>u quiz. uniqueIdMap st u = Some quiz \<Longrightarrow> quiz \<in> set done \<and> uniqueId quiz = Some u"
    and "\<And>quiz. quiz \<in> set done \<Longrightarrow> truthy_string (uniqueId quiz) \<Longrightarrow> id' quiz \<in> uniqueQuizIds st
            \<Longrightarrow> uniqueIdMap st (the (uniqueId quiz)) = Some quiz"
    and "id' ` set (duplicatesRemoved st) = id' ` set done - uniqueQuizIds st"
    and "contentHashMap st = Map.empty"
  using assms unfolding pass1_inv_def by blast+

lemma pass1_inv_step:
  assumes inv: "pass1_inv done st" and fresh0: "id' quiz \<notin> id' ` set done"
  shows "pass1_inv (done @ [quiz]) (pass1Step quiz st)"
proof -
  note i = pass1_invD [OF inv]
  have fresh: "id' q \<noteq> id' quiz" if "q \<in> set done" for q
    using fresh0 that by (metis imageI)
  have notin: "id' quiz \<notin> uniqueQuizIds st" using i(1) fresh0 by blast
  show ?thesis
  proof (cases "truthy_string (uniqueId quiz)")
    case False
    show ?thesis
      unfolding pass1Step_cases(1) [OF False]
    proof (rule pass1_invI)
      show "uniqueQuizIds (st\<lparr>uniqueQuizIds := insert (id' quiz) (uniqueQuizIds st)\<rparr>)
          \<subseteq> id' ` set (done @ [quiz])"
        using i(1) by auto
      show "id' ` set (duplicatesRemoved (st\<lparr>uniqueQuizIds := insert (id' quiz) (uniqueQuizIds st)\<rparr>))
          = id' ` set (done @ [quiz]) - uniqueQuizIds (st\<lparr>uniqueQuizIds := insert (id' quiz) (uniqueQuizIds st)\<rparr>)"
        using i(4) fresh0 by auto
    next
      fix u q
      assume "uniqueIdMap (st\<lparr>uniqueQuizIds := insert (id' quiz) (uniqueQuizIds st)\<rparr>) u = Some q"
      then show "q \<in> set (done @ [quiz]) \<and> uniqueId q = Some u" using i(2) by simp
    next
      fix q
      assume "q \<in> set (done @ [quiz])" "truthy_string (uniqueId q)"
        "id' q \<in> uniqueQuizIds (st\<lparr>uniqueQuizIds := insert (id' quiz) (uniqueQuizIds st)\<rparr>)"
      with False fresh have "q \<in> set done" "id' q \<in> uniqueQuizIds st" by auto
      with \<open>truthy_string (uniqueId q)\<close>
      show "uniqueIdMap (st\<lparr>uniqueQuizIds := insert (id' quiz) (uniqueQuizIds st)\<rparr>) (the (uniqueId q)) = Some q"
        by (simp add: i(3))
    qed (simp add: i(5))
  next
    case True
    note u = truthy_string_the [OF True]
    show ?thesis
    proof (cases "uniqueIdMap st (the (uniqueId quiz))")
      case None
      let ?st = "st\<lparr>uniqueIdMap := (uniqueIdMap st)(the (uniqueId quiz) \<mapsto> quiz),
            uniqueQuizIds := insert (id' quiz) (uniqueQuizIds st)\<rparr>"
      show ?thesis
        unfolding pass1Step_cases(2) [OF True None]
      proof (rule pass1_invI)
        show "uniqueQuizIds ?st \<subseteq> id' ` set (done @ [quiz])" using i(1) by auto
        show "id' ` set (duplicatesRemoved ?st) = id' ` set (done @ [quiz]) - uniqueQuizIds ?st"
          using i(4) fresh0 by auto
      next
        fix u' q
        assume "uniqueIdMap ?st u' = Some q"
        then show "q \<in> set (done @ [quiz]) \<and> uniqueId q = Some u'"
          using i(2) u by (cases "u' = the (uniqueId quiz)") auto
      next
        fix q
        assume q: "q \<in> set (done @ [quiz])" "truthy_string (uniqueId q)" "id' q \<in> uniqueQuizIds ?st"
        show "uniqueIdMap ?st (the (uniqueId q)) = Some q"
        proof (cases "q = quiz")
          case True
          then show ?thesis by simp
        next
          case False
          with q fresh have "q \<in> set done" "id' q \<in> uniqueQuizIds st" by auto
          with q(2) have m: "uniqueIdMap st (the (uniqueId q)) = Some q" by (simp add: i(3))
          with None have "the (uniqueId q) \<noteq> the (uniqueId quiz)" by auto
          with m show ?thesis by simp
        qed
      qed (simp add: i(5))
    next
      case (Some existingQuiz)
      with i(2) have ex: "existingQuiz \<in> set done" "uniqueId existingQuiz = uniqueId quiz"
        using u by auto
      show ?thesis
      proof (cases "keepNew quiz existingQuiz")
        case k: True
        let ?st = "st\<lparr>uniqueQuizIds := insert (id' quiz) (uniqueQuizIds st - {id' existingQuiz}),
            uniqueIdMap := (uniqueIdMap st)(the (uniqueId quiz) \<mapsto> quiz),
            duplicatesRemoved := duplicatesRemoved st @ [existingQuiz]\<rparr>"
        show ?thesis
          unfolding pass1Step_cases(3) [OF True Some k]
        proof (rule pass1_invI)
          show "uniqueQuizIds ?st \<subseteq> id' ` set (done @ [quiz])" using i(1) by auto
          show "id' ` set (duplicatesRemoved ?st) = id' ` set (done @ [quiz]) - uniqueQuizIds ?st"
            using i(4) ex(1) fresh [OF ex(1)] notin fresh0 by auto
        next
          fix u' q
          assume "uniqueIdMap ?st u' = Some q"
          then show "q \<in> set (done @ [quiz]) \<and> uniqueId q = Some u'"
            using i(2) u by (cases "u' = the (uniqueId quiz)") auto
        next
          fix q
          assume q: "q \<in> set (done @ [quiz])" "truthy_string (uniqueId q)" "id' q \<in> uniqueQuizIds ?st"
          show "uniqueIdMap ?st (the (uniqueId q)) = Some q"
          proof (cases "q = quiz")
            case True
            then show ?thesis by simp
          next
            case False
            with q fresh have d: "q \<in> set done" "id' q \<in> uniqueQuizIds st" "id' q \<noteq> id' existingQuiz"
              by auto
            with q(2) have m: "uniqueIdMap st (the (uniqueId q)) = Some q" by (simp add: i(3))
            with Some d(3) have "the (uniqueId q) \<noteq> the (uniqueId quiz)" by auto
            with m show ?thesis by simp
          qed
        qed (simp add: i(5))
      next
        case k: False
        let ?st = "st\<lparr>duplicatesRemoved := duplicatesRemoved st @ [quiz]\<rparr>"
        show ?thesis
          unfolding pass1Step_cases(4) [OF True Some k]
        proof (rule pass1_invI)
          show "uniqueQuizIds ?st \<subseteq> id' ` set (done @ [quiz])" using i(1) by auto
          show "id' ` set (duplicatesRemoved ?st) = id' ` set (done @ [quiz]) - uniqueQuizIds ?st"
            using i(4) notin fresh0 by auto
        next
          fix u' q
          assume "uniqueIdMap ?st u' = Some q"
          then show "q \<in> set (done @ [quiz]) \<and> uniqueId q = Some u'" using i(2) by simp
        next
          fix q
          assume q: "q \<in> set (done @ [quiz])" "truthy_string (uniqueId q)" "id' q \<in> uniqueQuizIds ?st"
          with notin have "q \<in> set done" by auto
          with q show "uniqueIdMap ?st (the (uniqueId q)) = Some q" by (simp add: i(3))
        qed (simp add: i(5))
      qed
    qed
  qed
qed

lemma pass1_inv_fold:
  "pass1_inv done st \<Longrightarrow> distinct (map id' (done @ rest)) \<Longrightarrow>
   pass1_inv (done @ rest) (fold pass1Step rest st)"
proof (induction rest arbitrary: "done" st)
  case Nil
  then show ?case by simp
next
  case (Cons quiz rest)
  from Cons.prems have "pass1_inv (done @ [quiz]) (pass1Step quiz st)"
    by (intro pass1_inv_step) auto
  moreover from Cons.prems have "distinct (map id' ((done @ [quiz]) @ rest))" by simp
  ultimately have "pass1_inv ((done @ [quiz]) @ rest) (fold pass1Step rest (pass1Step quiz st))"
    by (rule Cons.IH)
  then show ?case by simp
qed

lemma pass1_inv_all:
  "distinct (map id' qs) \<Longrightarrow> pass1_inv qs (fold pass1Step qs initialState)"
  using pass1_inv_fold [OF pass1_inv_initial, of qs] by simp

subsection \<open>Pass 2\<close>

lemma pass2Step_cases:
  "id' quiz \<notin> uniqueQuizIds st \<or> truthy_string (uniqueId quiz) \<Longrightarrow> pass2Step collate quiz st = st"
  "id' quiz \<in> uniqueQuizIds st \<Longrightarrow> \<not> truthy_string (uniqueId quiz) \<Longrightarrow>
   contentHashMap st (createContentHash collate quiz) = None \<Longrightarrow>
     pass2Step collate quiz st
       = st\<lparr>contentHashMap := (contentHashMap st)(createContentHash collate quiz \<mapsto> quiz)\<rparr>"
  "id' quiz \<in> uniqueQuizIds st \<Longrightarrow> \<not> truthy_string (uniqueId quiz) \<Longrightarrow>
   contentHashMap st (createContentHash collate quiz) = Some existingQuiz \<Longrightarrow>
   keepNew quiz existingQuiz \<Longrightarrow>
     pass2Step collate quiz st
       = st\<lparr>uniqueQuizIds := insert (id' quiz) (uniqueQuizIds st - {id' existingQuiz}),
            contentHashMap := (contentHashMap st)(createContentHash collate quiz \<mapsto> quiz),
            duplicatesRemoved := duplicatesRemoved st @ [existingQuiz]\<rparr>"
  "id' quiz \<in> uniqueQuizIds st \<Longrightarrow> \<not> truthy_string (uniqueId quiz) \<Longrightarrow>
   contentHashMap st (createContentHash collate quiz) = Some existingQuiz \<Longrightarrow>
   \<not> keepNew quiz existingQuiz \<Longrightarrow>
     pass2Step collate quiz st
       = st\<lparr>uniqueQuizIds := uniqueQuizIds st - {id' quiz},
            duplicatesRemoved := duplicatesRemoved st @ [quiz]\<rparr>"
  by (auto simp: pass2Step_def Let_def)

lemma pass2_invI:
  assumes "uniqueQuizIds st \<subseteq> kept1"
    and "\<And>h quiz. contentHashMap st h = Some quiz
            \<Longrightarrow> quiz \<in> set done \<and> createContentHash collate quiz = h
               \<and> \<not> truthy_string (uniqueId quiz)"
    and "\<And>quiz. quiz \<in> set done \<Longrightarrow> \<not> truthy_string (uniqueId quiz) \<Longrightarrow> id' quiz \<in> uniqueQuizIds st
            \<Longrightarrow> contentHashMap st (createContentHash collate quiz) = Some quiz"
    and "id' ` set (duplicatesRemoved st) = id' ` set all - uniqueQuizIds st"
  shows "pass2_inv collate all kept1 done st"
  using assms unfolding pass2_inv_def by blast

lemma pass2_invD:
  assumes "pass2_inv collate all kept1 done st"
  shows "uniqueQuizIds st \<subseteq> kept1"
    and "\<And>h quiz. contentHashMap st h = Some quiz
            \<Longrightarrow> quiz \<in> set done \<and> createContentHash collate quiz = h
               \<and> \<not> truthy_string (uniqueId quiz)"
    and "\<And>quiz. quiz \<in> set done \<Longrightarrow> \<not> truthy_string (uniqueId quiz) \<Longrightarrow> id' quiz \<in> uniqueQuizIds st
            \<Longrightarrow> contentHashMap st (createContentHash collate quiz) = Some quiz"
    and "id' ` set (duplicatesRemoved st) = id' ` set all - uniqueQuizIds st"
  using assms unfolding pass2_inv_def by blast+

lemma pass2_inv_initial:
  assumes "pass1_inv all st"
  shows "pass2_inv collate all (uniqueQuizIds st) [] st"
  using pass1_invD(4,5) [OF assms] by (intro pass2_invI) simp_all

lemma pass2_inv_step:
  assumes inv: "pass2_inv collate all kept1 done st" and fresh0: "id' quiz \<notin> id' ` set done"
    and sub: "set done \<subseteq> set all" "quiz \<in> set all"
  shows "pass2_inv collate all kept1 (done @ [quiz]) (pass2Step collate quiz st)"
proof -
  note i = pass2_invD [OF inv]
  have fresh: "id' q \<noteq> id' quiz" if "q \<in> set done" for q
    using fresh0 that by (metis imageI)
  let ?h = "createContentHash collate quiz"
  show ?thesis
  proof (cases "id' quiz \<notin> uniqueQuizIds st \<or> truthy_string (uniqueId quiz)")
    case True
    show ?thesis
      unfolding pass2Step_cases(1) [OF True]
    proof (rule pass2_invI)
      fix h q
      assume "contentHashMap st h = Some q"
      then show "q \<in> set (done @ [quiz]) \<and> createContentHash collate q = h
          \<and> \<not> truthy_string (uniqueId q)" using i(2) by simp
    next
      fix q
      assume q: "q \<in> set (done @ [quiz])" "\<not> truthy_string (uniqueId q)" "id' q \<in> uniqueQuizIds st"
      with True have "q \<in> set done" by auto
      with q show "contentHashMap st (createContentHash collate q) = Some q" by (simp add: i(3))
    qed (simp_all add: i(1,4))
  next
    case False
    then have k: "id' quiz \<in> uniqueQuizIds st" and n: "\<not> truthy_string (uniqueId quiz)" by auto
    show ?thesis
    proof (cases "contentHashMap st ?h")
      case None
      let ?st = "st\<lparr>contentHashMap := (contentHashMap st)(?h \<mapsto> quiz)\<rparr>"
      show ?thesis
        unfolding pass2Step_cases(2) [OF k n None]
      proof (rule pass2_invI)
        fix h q
        assume "contentHashMap ?st h = Some q"
        then show "q \<in> set (done @ [quiz]) \<and> createContentHash collate q = h
          \<and> \<not> truthy_string (uniqueId q)"
          using i(2) n by (cases "h = ?h") auto
      next
        fix q
        assume q: "q \<in> set (done @ [quiz])" "\<not> truthy_string (uniqueId q)" "id' q \<in> uniqueQuizIds ?st"
        show "contentHashMap ?st (createContentHash collate q) = Some q"
        proof (cases "q = quiz")
          case True
          then show ?thesis by simp
        next
          case False
          with q have "q \<in> set done" "id' q \<in> uniqueQuizIds st" by auto
          with q(2) have m: "contentHashMap st (createContentHash collate q) = Some q"
            by (simp add: i(3))
          with None have "createContentHash collate q \<noteq> ?h" by auto
          with m show ?thesis by simp
        qed
      qed (simp_all add: i(1,4))
    next
      case (Some existingQuiz)
      with i(2) have ex: "existingQuiz \<in> set done" by auto
      with sub have exa: "id' existingQuiz \<in> id' ` set all" by auto
      from sub have qa: "id' quiz \<in> id' ` set all" by auto
      show ?thesis
      proof (cases "keepNew quiz existingQuiz")
        case kn: True
        let ?st = "st\<lparr>uniqueQuizIds := insert (id' quiz) (uniqueQuizIds st - {id' existingQuiz}),
            contentHashMap := (contentHashMap st)(?h \<mapsto> quiz),
            duplicatesRemoved := duplicatesRemoved st @ [existingQuiz]\<rparr>"
        show ?thesis
          unfolding pass2Step_cases(3) [OF k n Some kn]
        proof (rule pass2_invI)
          show "uniqueQuizIds ?st \<subseteq> kept1" using i(1) k by auto
          show "id' ` set (duplicatesRemoved ?st) = id' ` set all - uniqueQuizIds ?st"
            using i(4) exa k fresh [OF ex] by auto
        next
          fix h q
          assume "contentHashMap ?st h = Some q"
          then show "q \<in> set (done @ [quiz]) \<and> createContentHash collate q = h
          \<and> \<not> truthy_string (uniqueId q)"
            using i(2) n by (cases "h = ?h") auto
        next
          fix q
          assume q: "q \<in> set (done @ [quiz])" "\<not> truthy_string (uniqueId q)" "id' q \<in> uniqueQuizIds ?st"
          show "contentHashMap ?st (createContentHash collate q) = Some q"
          proof (cases "q = quiz")
            case True
            then show ?thesis by simp
          next
            case False
            with q fresh have d: "q \<in> set done" "id' q \<in> uniqueQuizIds st" "id' q \<noteq> id' existingQuiz"
              by auto
            with q(2) have m: "contentHashMap st (createContentHash collate q) = Some q"
              by (simp add: i(3))
            with Some d(3) have "createContentHash collate q \<noteq> ?h" by auto
            with m show ?thesis by simp
          qed
        qed
      next
        case kn: False
        let ?st = "st\<lparr>uniqueQuizIds := uniqueQuizIds st - {id' quiz},
            duplicatesRemoved := duplicatesRemoved st @ [quiz]\<rparr>"
        show ?thesis
          unfolding pass2Step_cases(4) [OF k n Some kn]
        proof (rule pass2_invI)
          show "uniqueQuizIds ?st \<subseteq> kept1" using i(1) by auto
          show "id' ` set (duplicatesRemoved ?st) = id' ` set all - uniqueQuizIds ?st"
            using i(4) qa by auto
        next
          fix h q
          assume "contentHashMap ?st h = Some q"
          then show "q \<in> set (done @ [quiz]) \<and> createContentHash collate q = h
          \<and> \<not> truthy_string (uniqueId q)" using i(2) by simp
        next
          fix q
          assume q: "q \<in> set (done @ [quiz])" "\<not> truthy_string (uniqueId q)" "id' q \<in> uniqueQuizIds ?st"
          then have "q \<in> set done" "id' q \<in> uniqueQuizIds st" by auto
          with q(2) show "contentHashMap ?st (createContentHash collate q) = Some q"
            by (simp add: i(3))
        qed
      qed
    qed
  qed
qed

lemma pass2_inv_fold:
  "pass2_inv collate all kept1 done st \<Longrightarrow> distinct (map id' (done @ rest)) \<Longrightarrow>
   set (done @ rest) \<subseteq> set all \<Longrightarrow>
   pass2_inv collate all kept1 (done @ rest) (fold (pass2Step collate) rest st)"
proof (induction rest arbitrary: "done" st)
  case Nil
  then show ?case by simp
next
  case (Cons quiz rest)
  from Cons.prems have "pass2_inv collate all kept1 (done @ [quiz]) (pass2Step collate quiz st)"
    by (intro pass2_inv_step) auto
  moreover from Cons.prems have "distinct (map id' ((done @ [quiz]) @ rest))"
    and "set ((done @ [quiz]) @ rest) \<subseteq> set all" by simp_all
  ultimately have "pass2_inv collate all kept1 ((done @ [quiz]) @ rest)
      (fold (pass2Step collate) rest (pass2Step collate quiz st))"
    by (rule Cons.IH)
  then show ?case by simp
qed

lemma pass2_inv_all:
  assumes "distinct (map id' qs)"
  shows "pass2_inv collate qs (uniqueQuizIds (fold pass1Step qs initialState)) qs
     (fold (pass2Step collate) qs (fold pass1Step qs initialState))"
  using pass2_inv_fold [OF pass2_inv_initial [OF pass1_inv_all [OF assms]], of qs collate] assms
  by simp

subsection \<open>Pass 3: the groups by title\<close>

lemma titleMap_inv_step:
  assumes inv: "titleMap_inv kept done tm"
  shows "titleMap_inv kept (done @ [quiz]) (titleMapStep kept quiz tm)"
proof (cases "id' quiz \<in> kept")
  case False
  with inv show ?thesis by (auto simp: titleMap_inv_def titleMapStep_def)
next
  case True
  let ?t = "normalized (title quiz)"
  from inv have d: "distinct (map fst tm)"
    and g: "\<And>t grp. map_of tm t = Some grp
          \<Longrightarrow> grp = filter (\<lambda>quiz. id' quiz \<in> kept \<and> normalized (title quiz) = t) done"
    and c: "\<And>q. q \<in> set done \<Longrightarrow> id' q \<in> kept \<Longrightarrow> map_of tm (normalized (title q)) \<noteq> None"
    unfolding titleMap_inv_def by blast+
  show ?thesis
  proof (cases "map_of tm ?t")
    case None
    have e: "filter (\<lambda>q. id' q \<in> kept \<and> normalized (title q) = ?t) done = []"
      unfolding filter_empty_conv using c None by (metis (no_types))
    have s: "titleMapStep kept quiz tm = AList.update ?t [quiz] tm"
      using True None by (simp add: titleMapStep_def)
    show ?thesis
      unfolding s titleMap_inv_def
    proof (intro conjI allI impI ballI)
      show "distinct (map fst (AList.update ?t [quiz] tm))" using d by (rule distinct_update)
    next
      fix t grp
      assume "map_of (AList.update ?t [quiz] tm) t = Some grp"
      then show "grp = filter (\<lambda>q. id' q \<in> kept \<and> normalized (title q) = t) (done @ [quiz])"
        using g e True by (cases "t = ?t") (auto simp: update_conv')
    next
      fix q
      assume "q \<in> set (done @ [quiz])" "id' q \<in> kept"
      then show "map_of (AList.update ?t [quiz] tm) (normalized (title q)) \<noteq> None"
        using c by (auto simp: update_conv')
    qed
  next
    case (Some grp0)
    have s: "titleMapStep kept quiz tm = AList.update ?t (grp0 @ [quiz]) tm"
      using True Some by (simp add: titleMapStep_def)
    show ?thesis
      unfolding s titleMap_inv_def
    proof (intro conjI allI impI ballI)
      show "distinct (map fst (AList.update ?t (grp0 @ [quiz]) tm))" using d by (rule distinct_update)
    next
      fix t grp
      assume "map_of (AList.update ?t (grp0 @ [quiz]) tm) t = Some grp"
      then show "grp = filter (\<lambda>q. id' q \<in> kept \<and> normalized (title q) = t) (done @ [quiz])"
        using g [OF Some] g [of t grp] True by (cases "t = ?t") (auto simp: update_conv')
    next
      fix q
      assume "q \<in> set (done @ [quiz])" "id' q \<in> kept"
      then show "map_of (AList.update ?t (grp0 @ [quiz]) tm) (normalized (title q)) \<noteq> None"
        using c by (auto simp: update_conv')
    qed
  qed
qed

lemma titleMap_inv_fold:
  "titleMap_inv kept done tm \<Longrightarrow>
   titleMap_inv kept (done @ rest) (fold (titleMapStep kept) rest tm)"
proof (induction rest arbitrary: "done" tm)
  case Nil
  then show ?case by simp
next
  case (Cons quiz rest)
  from Cons.prems have "titleMap_inv kept (done @ [quiz]) (titleMapStep kept quiz tm)"
    by (rule titleMap_inv_step)
  then have "titleMap_inv kept ((done @ [quiz]) @ rest)
      (fold (titleMapStep kept) rest (titleMapStep kept quiz tm))"
    by (rule Cons.IH)
  then show ?case by simp
qed

lemma titleMap_inv_all: "titleMap_inv kept qs (fold (titleMapStep kept) qs [])"
proof -
  have "titleMap_inv kept [] []" by (simp add: titleMap_inv_def)
  from titleMap_inv_fold [OF this, of qs] show ?thesis by (simp only: append_Nil)
qed

subsection \<open>Pass 3: the loops\<close>

lemma innerLoop_Cons:
  "id' quiz2 \<notin> finalUniqueQuizIds st \<or> \<not> isDuplicatePair quiz1 quiz2 \<Longrightarrow>
     innerLoop quiz1 (quiz2 # rest) st = innerLoop quiz1 rest st"
  "id' quiz2 \<in> finalUniqueQuizIds st \<Longrightarrow> isDuplicatePair quiz1 quiz2 \<Longrightarrow> keepNew quiz1 quiz2 \<Longrightarrow>
     innerLoop quiz1 (quiz2 # rest) st
       = innerLoop quiz1 rest
           (st\<lparr>finalUniqueQuizIds := finalUniqueQuizIds st - {id' quiz2},
               duplicatesRemoved := duplicatesRemoved st @ [quiz2]\<rparr>)"
  "id' quiz2 \<in> finalUniqueQuizIds st \<Longrightarrow> isDuplicatePair quiz1 quiz2 \<Longrightarrow> \<not> keepNew quiz1 quiz2 \<Longrightarrow>
     innerLoop quiz1 (quiz2 # rest) st
       = st\<lparr>finalUniqueQuizIds := finalUniqueQuizIds st - {id' quiz1},
            duplicatesRemoved := duplicatesRemoved st @ [quiz1]\<rparr>"
  by (auto simp: isDuplicatePair_def)

lemma innerLoop_mono:
  "finalUniqueQuizIds (innerLoop quiz1 rest st) \<subseteq> finalUniqueQuizIds st"
proof (induction rest arbitrary: st)
  case Nil
  then show ?case by simp
next
  case (Cons quiz2 rest)
  have "finalUniqueQuizIds (innerLoop quiz1 rest
           (st\<lparr>finalUniqueQuizIds := finalUniqueQuizIds st - {id' quiz2},
               duplicatesRemoved := duplicatesRemoved st @ [quiz2]\<rparr>))
      \<subseteq> finalUniqueQuizIds st"
    using Cons.IH [of "st\<lparr>finalUniqueQuizIds := finalUniqueQuizIds st - {id' quiz2},
               duplicatesRemoved := duplicatesRemoved st @ [quiz2]\<rparr>"] by auto
  with Cons.IH [of st] show ?case by auto
qed

lemma outerLoop_mono:
  "finalUniqueQuizIds (outerLoop grp st) \<subseteq> finalUniqueQuizIds st"
proof (induction grp arbitrary: st)
  case Nil
  then show ?case by simp
next
  case (Cons quiz1 rest)
  from Cons.IH [of st] Cons.IH [of "innerLoop quiz1 rest st"] innerLoop_mono [of quiz1 rest st]
  show ?case by auto
qed

text \<open>If the first quiz survives its inner loop, no surviving later quiz is a duplicate of it.\<close>

lemma innerLoop_no_duplicate:
  "id' quiz1 \<in> finalUniqueQuizIds (innerLoop quiz1 rest st) \<Longrightarrow> quiz2 \<in> set rest \<Longrightarrow>
   id' quiz2 \<in> finalUniqueQuizIds (innerLoop quiz1 rest st) \<Longrightarrow> \<not> isDuplicatePair quiz1 quiz2"
proof (induction rest arbitrary: st)
  case Nil
  then show ?case by simp
next
  case (Cons q rest)
  let ?st = "st\<lparr>finalUniqueQuizIds := finalUniqueQuizIds st - {id' q},
               duplicatesRemoved := duplicatesRemoved st @ [q]\<rparr>"
  consider (skip) "id' q \<notin> finalUniqueQuizIds st \<or> \<not> isDuplicatePair quiz1 q"
    | (second) "id' q \<in> finalUniqueQuizIds st" "isDuplicatePair quiz1 q" "keepNew quiz1 q"
    | (first) "id' q \<in> finalUniqueQuizIds st" "isDuplicatePair quiz1 q" "\<not> keepNew quiz1 q"
    by blast
  then show ?case
  proof cases
    case skip
    note e = innerLoop_Cons(1) [OF skip, of rest]
    show ?thesis
    proof (cases "quiz2 = q")
      case True
      with skip Cons.prems innerLoop_mono [of quiz1 rest st] show ?thesis
        unfolding e by auto
    next
      case False
      with Cons.prems Cons.IH [of st] show ?thesis unfolding e by auto
    qed
  next
    case second
    note e = innerLoop_Cons(2) [OF second, of rest]
    show ?thesis
    proof (cases "id' quiz2 = id' q")
      case True
      with Cons.prems innerLoop_mono [of quiz1 rest ?st] show ?thesis unfolding e by auto
    next
      case False
      with Cons.prems Cons.IH [of ?st] show ?thesis unfolding e by auto
    qed
  next
    case first
    note e = innerLoop_Cons(3) [OF first, of rest]
    from Cons.prems show ?thesis unfolding e by simp
  qed
qed

lemma filter_subset_sorted_wrt:
  assumes "sorted_wrt R (filter (\<lambda>x. f x \<in> A) xs)" and "B \<subseteq> A"
  shows "sorted_wrt R (filter (\<lambda>x. f x \<in> B) xs)"
proof -
  have "filter (\<lambda>x. f x \<in> B) xs = filter (\<lambda>x. f x \<in> B) (filter (\<lambda>x. f x \<in> A) xs)"
    using assms(2) by (auto intro: filter_cong)
  with assms(1) show ?thesis by (simp only: sorted_wrt_filter)
qed

lemma outerLoop_no_duplicate:
  "sorted_wrt (\<lambda>quiz1 quiz2. \<not> isDuplicatePair quiz1 quiz2)
     (filter (\<lambda>quiz. id' quiz \<in> finalUniqueQuizIds (outerLoop grp st)) grp)"
proof (induction grp arbitrary: st)
  case Nil
  then show ?case by simp
next
  case (Cons quiz1 rest)
  show ?case
  proof (cases "id' quiz1 \<in> finalUniqueQuizIds st")
    case False
    with outerLoop_mono [of rest st] have "id' quiz1 \<notin> finalUniqueQuizIds (outerLoop rest st)"
      by auto
    with False Cons.IH [of st] show ?thesis by simp
  next
    case True
    let ?st = "innerLoop quiz1 rest st"
    let ?F = "finalUniqueQuizIds (outerLoop rest ?st)"
    have o: "outerLoop (quiz1 # rest) st = outerLoop rest ?st" using True by simp
    have m: "?F \<subseteq> finalUniqueQuizIds ?st" by (rule outerLoop_mono)
    show ?thesis
    proof (cases "id' quiz1 \<in> ?F")
      case False
      with Cons.IH [of ?st] show ?thesis unfolding o by simp
    next
      case k: True
      have "\<not> isDuplicatePair quiz1 quiz2" if "quiz2 \<in> set rest" "id' quiz2 \<in> ?F" for quiz2
        using innerLoop_no_duplicate [of quiz1 rest st quiz2] that k m by auto
      with k Cons.IH [of ?st] show ?thesis unfolding o by simp
    qed
  qed
qed

text \<open>The loops change nothing where no pair is a duplicate.\<close>

lemma innerLoop_clean:
  "\<forall>quiz2 \<in> set rest. \<not> isDuplicatePair quiz1 quiz2 \<Longrightarrow> innerLoop quiz1 rest st = st"
  by (induction rest) (auto simp: isDuplicatePair_def)

lemma outerLoop_clean:
  "sorted_wrt (\<lambda>quiz1 quiz2. \<not> isDuplicatePair quiz1 quiz2) grp \<Longrightarrow> outerLoop grp st = st"
  by (induction grp) (auto simp: innerLoop_clean)

lemma groupStep_outerLoop: "groupStep entry st = outerLoop (snd entry) st"
proof (cases "snd entry")
  case Nil
  then show ?thesis by (simp add: groupStep_def)
next
  case (Cons quiz1 rest)
  then show ?thesis by (cases rest) (simp_all add: groupStep_def)
qed

subsection \<open>Pass 3: what is removed\<close>

lemma innerLoop_removed:
  "id' quiz1 \<in> finalUniqueQuizIds st \<Longrightarrow> id' quiz1 \<notin> id' ` set rest \<Longrightarrow>
   id' ` set (duplicatesRemoved (innerLoop quiz1 rest st))
     = id' ` set (duplicatesRemoved st)
       \<union> (finalUniqueQuizIds st - finalUniqueQuizIds (innerLoop quiz1 rest st))"
proof (induction rest arbitrary: st)
  case Nil
  then show ?case by simp
next
  case (Cons q rest)
  let ?st = "st\<lparr>finalUniqueQuizIds := finalUniqueQuizIds st - {id' q},
               duplicatesRemoved := duplicatesRemoved st @ [q]\<rparr>"
  from Cons.prems have n: "id' quiz1 \<noteq> id' q" "id' quiz1 \<notin> id' ` set rest" by auto
  consider (skip) "id' q \<notin> finalUniqueQuizIds st \<or> \<not> isDuplicatePair quiz1 q"
    | (second) "id' q \<in> finalUniqueQuizIds st" "isDuplicatePair quiz1 q" "keepNew quiz1 q"
    | (first) "id' q \<in> finalUniqueQuizIds st" "isDuplicatePair quiz1 q" "\<not> keepNew quiz1 q"
    by blast
  then show ?case
  proof cases
    case skip
    from Cons.IH [OF Cons.prems(1) n(2)] show ?thesis
      unfolding innerLoop_Cons(1) [OF skip, of rest] .
  next
    case second
    from Cons.prems(1) n(1) have "id' quiz1 \<in> finalUniqueQuizIds ?st" by simp
    from Cons.IH [OF this n(2)] innerLoop_mono [of quiz1 rest ?st] second(1)
    show ?thesis
      unfolding innerLoop_Cons(2) [OF second, of rest] by auto
  next
    case first
    from Cons.prems(1) show ?thesis
      unfolding innerLoop_Cons(3) [OF first, of rest] by auto
  qed
qed

lemma outerLoop_removed:
  "distinct (map id' grp) \<Longrightarrow>
   id' ` set (duplicatesRemoved (outerLoop grp st))
     = id' ` set (duplicatesRemoved st)
       \<union> (finalUniqueQuizIds st - finalUniqueQuizIds (outerLoop grp st))"
proof (induction grp arbitrary: st)
  case Nil
  then show ?case by simp
next
  case (Cons quiz1 rest)
  then have d: "distinct (map id' rest)" "id' quiz1 \<notin> id' ` set rest" by auto
  show ?case
  proof (cases "id' quiz1 \<in> finalUniqueQuizIds st")
    case False
    with Cons.IH [OF d(1), of st] show ?thesis by simp
  next
    case True
    let ?st = "innerLoop quiz1 rest st"
    from innerLoop_removed [OF True d(2)] Cons.IH [OF d(1), of ?st]
      innerLoop_mono [of quiz1 rest st] outerLoop_mono [of rest ?st] True
    show ?thesis by auto
  qed
qed

lemma fold_groupStep:
  assumes "\<forall>entry \<in> set entries. distinct (map id' (snd entry))"
  shows "finalUniqueQuizIds (fold groupStep entries st) \<subseteq> finalUniqueQuizIds st
    \<and> id' ` set (duplicatesRemoved (fold groupStep entries st))
        = id' ` set (duplicatesRemoved st)
          \<union> (finalUniqueQuizIds st - finalUniqueQuizIds (fold groupStep entries st))
    \<and> (\<forall>entry \<in> set entries.
          sorted_wrt (\<lambda>quiz1 quiz2. \<not> isDuplicatePair quiz1 quiz2)
            (filter (\<lambda>quiz. id' quiz \<in> finalUniqueQuizIds (fold groupStep entries st)) (snd entry)))"
  using assms
proof (induction entries arbitrary: st)
  case Nil
  then show ?case by simp
next
  case (Cons entry entries)
  let ?st = "outerLoop (snd entry) st"
  let ?end = "fold groupStep entries ?st"
  from Cons.prems have d: "distinct (map id' (snd entry))"
    and ds: "\<forall>entry \<in> set entries. distinct (map id' (snd entry))" by auto
  note ih = Cons.IH [OF ds, of ?st]
  have e: "fold groupStep (entry # entries) st = ?end" by (simp add: groupStep_outerLoop)
  have m: "finalUniqueQuizIds ?st \<subseteq> finalUniqueQuizIds st" by (rule outerLoop_mono)
  from ih have m': "finalUniqueQuizIds ?end \<subseteq> finalUniqueQuizIds ?st" by blast
  have "sorted_wrt (\<lambda>quiz1 quiz2. \<not> isDuplicatePair quiz1 quiz2)
      (filter (\<lambda>quiz. id' quiz \<in> finalUniqueQuizIds ?end) (snd entry))"
    using outerLoop_no_duplicate m' by (rule filter_subset_sorted_wrt)
  moreover have "id' ` set (duplicatesRemoved ?end)
      = id' ` set (duplicatesRemoved st) \<union> (finalUniqueQuizIds st - finalUniqueQuizIds ?end)"
    using ih outerLoop_removed [OF d, of st] m m' by auto
  ultimately show ?case unfolding e using ih m m' by auto
qed

lemma fold_groupStep_clean:
  "\<forall>entry \<in> set entries. sorted_wrt (\<lambda>quiz1 quiz2. \<not> isDuplicatePair quiz1 quiz2) (snd entry)
   \<Longrightarrow> fold groupStep entries st = st"
  by (induction entries) (simp_all add: groupStep_outerLoop outerLoop_clean)

subsection \<open>Lists keyed by title\<close>

lemma sorted_wrt_by_key:
  "(\<And>t. sorted_wrt R (filter (\<lambda>x. key x = t) xs)) \<Longrightarrow>
   sorted_wrt (\<lambda>a b. key a = key b \<longrightarrow> R a b) xs"
proof (induction xs)
  case Nil
  then show ?case by simp
next
  case (Cons x xs)
  have "sorted_wrt R (filter (\<lambda>x. key x = t) xs)" for t
    using Cons.prems [of t] by (cases "key x = t") simp_all
  then have "sorted_wrt (\<lambda>a b. key a = key b \<longrightarrow> R a b) xs" by (rule Cons.IH)
  moreover have "R x y" if "y \<in> set xs" "key x = key y" for y
    using Cons.prems [of "key x"] that by simp
  ultimately show ?case by simp
qed

lemma sorted_wrt_key_filter:
  "sorted_wrt (\<lambda>a b. key a = key b \<longrightarrow> R a b) xs \<Longrightarrow> sorted_wrt R (filter (\<lambda>x. key x = t) xs)"
  by (induction xs) auto

subsection \<open>The three passes together\<close>

lemma findDuplicates_unfold:
  "findDuplicates collate qs
     = fold groupStep
         (fold (titleMapStep (uniqueQuizIds (fold (pass2Step collate) qs (fold pass1Step qs initialState)))) qs [])
         ((fold (pass2Step collate) qs (fold pass1Step qs initialState))
            \<lparr>finalUniqueQuizIds :=
               uniqueQuizIds (fold (pass2Step collate) qs (fold pass1Step qs initialState))\<rparr>)"
  by (simp add: findDuplicates_def Let_def)

lemma distinct_map_inj:
  assumes "distinct xs" and "\<And>x y. x \<in> set xs \<Longrightarrow> y \<in> set xs \<Longrightarrow> f x = f y \<Longrightarrow> x = y"
  shows "distinct (map f xs)"
  using assms by (auto simp: distinct_map intro: inj_onI)

lemma findDuplicates_result:
  fixes collate :: "string \<Rightarrow> 'k::linorder" and qs :: "quiz list"
  assumes d: "distinct (map id' qs)"
  defines "F \<equiv> finalUniqueQuizIds (findDuplicates collate qs)"
  shows "id' ` set (duplicatesRemoved (findDuplicates collate qs)) = id' ` set qs - F"
    and "duplicateFree collate (filter (\<lambda>quiz. id' quiz \<in> F) qs)"
proof -
  let ?st1 = "fold pass1Step qs initialState"
  let ?st2 = "fold (pass2Step collate) qs ?st1"
  let ?S2 = "uniqueQuizIds ?st2"
  let ?tm = "fold (titleMapStep ?S2) qs []"
  let ?st3 = "?st2\<lparr>finalUniqueQuizIds := ?S2\<rparr>"
  note p1 = pass1_invD [OF pass1_inv_all [OF d]]
  note p2 = pass2_invD [OF pass2_inv_all [OF d, of collate]]
  have tm: "titleMap_inv ?S2 qs ?tm" by (rule titleMap_inv_all)
  then have tmd: "distinct (map fst ?tm)"
    and tmg: "\<And>t grp. map_of ?tm t = Some grp
      \<Longrightarrow> grp = filter (\<lambda>quiz. id' quiz \<in> ?S2 \<and> normalized (title quiz) = t) qs"
    and tmc: "\<And>q. q \<in> set qs \<Longrightarrow> id' q \<in> ?S2 \<Longrightarrow> map_of ?tm (normalized (title q)) \<noteq> None"
    unfolding titleMap_inv_def by blast+
  have F: "F = finalUniqueQuizIds (fold groupStep ?tm ?st3)"
    unfolding F_def findDuplicates_unfold ..
  have R: "duplicatesRemoved (findDuplicates collate qs) = duplicatesRemoved (fold groupStep ?tm ?st3)"
    unfolding findDuplicates_unfold ..
  have dq: "distinct qs" using d by (rule distinct_map [THEN iffD1, THEN conjunct1])
  have gd: "\<forall>entry \<in> set ?tm. distinct (map id' (snd entry))"
  proof
    fix entry assume "entry \<in> set ?tm"
    with tmd have "map_of ?tm (fst entry) = Some (snd entry)" by simp
    from tmg [OF this] d show "distinct (map id' (snd entry))" by (simp add: distinct_map_filter)
  qed
  note g = fold_groupStep [OF gd, of ?st3]
  from g have FS: "F \<subseteq> ?S2" unfolding F by simp
  from p1(1) p2(1) have S2: "?S2 \<subseteq> id' ` set qs" by blast
  from g have "id' ` set (duplicatesRemoved (fold groupStep ?tm ?st3))
     = id' ` set (duplicatesRemoved ?st2) \<union> (?S2 - F)" unfolding F by simp
  with p2(4) FS S2 show "id' ` set (duplicatesRemoved (findDuplicates collate qs)) = id' ` set qs - F"
    unfolding R by auto
  let ?K = "filter (\<lambda>quiz. id' quiz \<in> F) qs"
  have u: "distinct (map uniqueId (filter (\<lambda>quiz. truthy_string (uniqueId quiz)) ?K))"
  proof (rule distinct_map_inj)
    show "distinct (filter (\<lambda>quiz. truthy_string (uniqueId quiz)) ?K)" using dq by simp
  next
    fix x y
    assume "x \<in> set (filter (\<lambda>quiz. truthy_string (uniqueId quiz)) ?K)"
      "y \<in> set (filter (\<lambda>quiz. truthy_string (uniqueId quiz)) ?K)" "uniqueId x = uniqueId y"
    with FS p2(1) have x: "x \<in> set qs" "truthy_string (uniqueId x)" "id' x \<in> uniqueQuizIds ?st1"
      and y: "y \<in> set qs" "truthy_string (uniqueId y)" "id' y \<in> uniqueQuizIds ?st1"
      and e: "uniqueId x = uniqueId y" by auto
    from p1(3) [OF x] p1(3) [OF y] e show "x = y" by (metis option.inject)
  qed
  have h: "distinct (map (createContentHash collate)
      (filter (\<lambda>quiz. \<not> truthy_string (uniqueId quiz)) ?K))"
  proof (rule distinct_map_inj)
    show "distinct (filter (\<lambda>quiz. \<not> truthy_string (uniqueId quiz)) ?K)" using dq by simp
  next
    fix x y
    assume "x \<in> set (filter (\<lambda>quiz. \<not> truthy_string (uniqueId quiz)) ?K)"
      "y \<in> set (filter (\<lambda>quiz. \<not> truthy_string (uniqueId quiz)) ?K)"
      "createContentHash collate x = createContentHash collate y"
    with FS have x: "x \<in> set qs" "\<not> truthy_string (uniqueId x)" "id' x \<in> ?S2"
      and y: "y \<in> set qs" "\<not> truthy_string (uniqueId y)" "id' y \<in> ?S2"
      and e: "createContentHash collate x = createContentHash collate y" by auto
    from p2(3) [OF x] p2(3) [OF y] e show "x = y" by (metis option.inject)
  qed
  have t: "sorted_wrt (\<lambda>quiz1 quiz2. normalized (title quiz1) = normalized (title quiz2)
            \<longrightarrow> \<not> isDuplicatePair quiz1 quiz2) ?K"
  proof (rule sorted_wrt_by_key)
    fix t
    let ?g = "filter (\<lambda>quiz. id' quiz \<in> ?S2 \<and> normalized (title quiz) = t) qs"
    have k: "filter (\<lambda>x. normalized (title x) = t) ?K = filter (\<lambda>quiz. id' quiz \<in> F) ?g"
      using FS by (auto intro: filter_cong)
    show "sorted_wrt (\<lambda>quiz1 quiz2. \<not> isDuplicatePair quiz1 quiz2)
        (filter (\<lambda>x. normalized (title x) = t) ?K)"
    proof (cases "map_of ?tm t")
      case None
      with tmc have "?g = []" unfolding filter_empty_conv by (metis (no_types))
      then show ?thesis unfolding k by simp
    next
      case (Some grp)
      then have "(t, grp) \<in> set ?tm" by (rule map_of_SomeD)
      with g have "sorted_wrt (\<lambda>quiz1 quiz2. \<not> isDuplicatePair quiz1 quiz2)
          (filter (\<lambda>quiz. id' quiz \<in> F) grp)" unfolding F by force
      with tmg [OF Some] show ?thesis unfolding k by simp
    qed
  qed
  from u h t show "duplicateFree collate ?K" unfolding duplicateFree_def by blast
qed

subsection \<open>A list without duplicates loses nothing\<close>

lemma pass1_keeps_all:
  "pass1_inv done st \<Longrightarrow> distinct (map id' (done @ rest)) \<Longrightarrow>
   distinct (map uniqueId (filter (\<lambda>quiz. truthy_string (uniqueId quiz)) (done @ rest))) \<Longrightarrow>
   uniqueQuizIds st = id' ` set done \<Longrightarrow>
   uniqueQuizIds (fold pass1Step rest st) = id' ` set (done @ rest)"
proof (induction rest arbitrary: "done" st)
  case Nil
  then show ?case by simp
next
  case (Cons quiz rest)
  note i = pass1_invD [OF Cons.prems(1)]
  have s: "uniqueQuizIds (pass1Step quiz st) = insert (id' quiz) (uniqueQuizIds st)"
  proof (cases "truthy_string (uniqueId quiz)")
    case False
    then show ?thesis by (simp add: pass1Step_cases(1))
  next
    case True
    show ?thesis
    proof (cases "uniqueIdMap st (the (uniqueId quiz))")
      case None
      with True show ?thesis by (simp add: pass1Step_cases(2))
    next
      case (Some existingQuiz)
      with i(2) truthy_string_the [OF True]
      have "existingQuiz \<in> set done" "uniqueId existingQuiz = uniqueId quiz" by auto
      with True have "uniqueId quiz
          \<in> uniqueId ` set (filter (\<lambda>quiz. truthy_string (uniqueId quiz)) done)"
        by (auto simp: image_iff)
      with Cons.prems(3) True show ?thesis by auto
    qed
  qed
  from Cons.prems have "pass1_inv (done @ [quiz]) (pass1Step quiz st)"
    by (intro pass1_inv_step) auto
  moreover from Cons.prems have "distinct (map id' ((done @ [quiz]) @ rest))"
    and "distinct (map uniqueId (filter (\<lambda>quiz. truthy_string (uniqueId quiz)) ((done @ [quiz]) @ rest)))"
    by simp_all
  moreover from s Cons.prems(4) have "uniqueQuizIds (pass1Step quiz st) = id' ` set (done @ [quiz])"
    by auto
  ultimately have "uniqueQuizIds (fold pass1Step rest (pass1Step quiz st))
      = id' ` set ((done @ [quiz]) @ rest)"
    by (rule Cons.IH)
  then show ?case by simp
qed

lemma pass2_keeps_all:
  "pass2_inv collate all kept1 done st \<Longrightarrow> distinct (map id' (done @ rest)) \<Longrightarrow>
   set (done @ rest) \<subseteq> set all \<Longrightarrow>
   distinct (map (createContentHash collate)
     (filter (\<lambda>quiz. \<not> truthy_string (uniqueId quiz)) (done @ rest))) \<Longrightarrow>
   uniqueQuizIds (fold (pass2Step collate) rest st) = uniqueQuizIds st"
proof (induction rest arbitrary: "done" st)
  case Nil
  then show ?case by simp
next
  case (Cons quiz rest)
  note i = pass2_invD [OF Cons.prems(1)]
  have s: "uniqueQuizIds (pass2Step collate quiz st) = uniqueQuizIds st"
  proof (cases "id' quiz \<notin> uniqueQuizIds st \<or> truthy_string (uniqueId quiz)")
    case True
    then show ?thesis by (simp add: pass2Step_cases(1))
  next
    case False
    then have k: "id' quiz \<in> uniqueQuizIds st" and n: "\<not> truthy_string (uniqueId quiz)" by auto
    show ?thesis
    proof (cases "contentHashMap st (createContentHash collate quiz)")
      case None
      with k n show ?thesis by (simp add: pass2Step_cases(2))
    next
      case (Some existingQuiz)
      with i(2) have "existingQuiz \<in> set done"
        "createContentHash collate existingQuiz = createContentHash collate quiz"
        "\<not> truthy_string (uniqueId existingQuiz)" by auto
      then have "createContentHash collate quiz
          \<in> createContentHash collate ` set (filter (\<lambda>quiz. \<not> truthy_string (uniqueId quiz)) done)"
        by (auto simp: image_iff)
      with Cons.prems(4) n show ?thesis by auto
    qed
  qed
  from Cons.prems have "pass2_inv collate all kept1 (done @ [quiz]) (pass2Step collate quiz st)"
    by (intro pass2_inv_step) auto
  moreover from Cons.prems have "distinct (map id' ((done @ [quiz]) @ rest))"
    and "set ((done @ [quiz]) @ rest) \<subseteq> set all"
    and "distinct (map (createContentHash collate)
      (filter (\<lambda>quiz. \<not> truthy_string (uniqueId quiz)) ((done @ [quiz]) @ rest)))"
    by simp_all
  ultimately have "uniqueQuizIds (fold (pass2Step collate) rest (pass2Step collate quiz st))
      = uniqueQuizIds (pass2Step collate quiz st)"
    by (rule Cons.IH)
  with s show ?case by simp
qed

lemma findDuplicates_clean:
  assumes d: "distinct (map id' qs)" and c: "duplicateFree collate qs"
  shows "duplicatesRemoved (findDuplicates collate qs) = []"
proof -
  let ?st1 = "fold pass1Step qs initialState"
  let ?st2 = "fold (pass2Step collate) qs ?st1"
  let ?S2 = "uniqueQuizIds ?st2"
  let ?tm = "fold (titleMapStep ?S2) qs []"
  let ?st3 = "?st2\<lparr>finalUniqueQuizIds := ?S2\<rparr>"
  from c have c1: "distinct (map uniqueId (filter (\<lambda>quiz. truthy_string (uniqueId quiz)) qs))"
    and c2: "distinct (map (createContentHash collate)
            (filter (\<lambda>quiz. \<not> truthy_string (uniqueId quiz)) qs))"
    and c3: "sorted_wrt (\<lambda>quiz1 quiz2. normalized (title quiz1) = normalized (title quiz2)
            \<longrightarrow> \<not> isDuplicatePair quiz1 quiz2) qs"
    unfolding duplicateFree_def by blast+
  have S1: "uniqueQuizIds ?st1 = id' ` set qs"
    using pass1_keeps_all [OF pass1_inv_initial, of qs] d c1 by (simp add: initialState_def)
  have "uniqueQuizIds ?st2 = uniqueQuizIds ?st1"
    using pass2_keeps_all [OF pass2_inv_initial [OF pass1_inv_all [OF d]], of qs collate] d c2
    by simp
  with S1 have S2: "?S2 = id' ` set qs" by simp
  from pass2_invD(4) [OF pass2_inv_all [OF d, of collate]] S2
  have r2: "duplicatesRemoved ?st2 = []" by simp
  have tm: "titleMap_inv ?S2 qs ?tm" by (rule titleMap_inv_all)
  have "\<forall>entry \<in> set ?tm. sorted_wrt (\<lambda>quiz1 quiz2. \<not> isDuplicatePair quiz1 quiz2) (snd entry)"
  proof
    fix entry assume "entry \<in> set ?tm"
    with tm have "map_of ?tm (fst entry) = Some (snd entry)" by (simp add: titleMap_inv_def)
    with tm have "snd entry
        = filter (\<lambda>quiz. id' quiz \<in> ?S2 \<and> normalized (title quiz) = fst entry) qs"
      unfolding titleMap_inv_def by blast
    also have "\<dots> = filter (\<lambda>quiz. normalized (title quiz) = fst entry) qs"
      unfolding S2 by (auto intro: filter_cong)
    finally show "sorted_wrt (\<lambda>quiz1 quiz2. \<not> isDuplicatePair quiz1 quiz2) (snd entry)"
      using sorted_wrt_key_filter [OF c3, of "fst entry"] by simp
  qed
  then have "fold groupStep ?tm ?st3 = ?st3" by (rule fold_groupStep_clean)
  with r2 show ?thesis unfolding findDuplicates_unfold by simp
qed

subsection \<open>The content hash determines the title\<close>

lemma lexScan_simps [simp]:
  "lexScan [] st = st"
  "lexScan (c # w) st = lexScan w (lexStep c st)"
  "lexScan (v @ w) st = lexScan w (lexScan v st)"
  by (simp_all add: lexScan_def)

lemma lexMode_same: "lexMode st = m \<Longrightarrow> st\<lparr>lexMode := m\<rparr> = st"
  by (cases st) simp

lemma flagged_lexStep: "flagged st \<Longrightarrow> flagged (lexStep c st)"
  by (simp add: lexStep_def split: lexMode.splits)

lemma flagged_lexScan: "flagged st \<Longrightarrow> flagged (lexScan w st)"
  by (induction w arbitrary: st) (simp_all add: flagged_lexStep)

lemma closed_lexScan: "closed st \<Longrightarrow> w \<noteq> [] \<Longrightarrow> flagged (lexScan w st)"
  by (cases w) (simp_all add: flagged_lexScan lexStep_def)

text \<open>Inside a string, characters other than the quotation mark and the backslash change nothing.\<close>

lemma lexScan_plain:
  "lexMode st = Inside \<Longrightarrow> \<not> closed st \<Longrightarrow> CHR 0x22 \<notin> set w \<Longrightarrow> CHR 0x5C \<notin> set w \<Longrightarrow>
   lexScan w st = st"
  by (induction w) (auto simp: lexStep_def)

lemma lexScan_escaped_pair:
  "lexMode st = Inside \<Longrightarrow> \<not> closed st \<Longrightarrow> lexScan [CHR 0x5C, c] st = st"
  by (simp add: lexStep_def lexMode_same)

lemma controlHex_plain:
  "map_of controlHex c = Some h \<Longrightarrow> CHR 0x22 \<notin> set h \<and> CHR 0x5C \<notin> set h"
  by (auto simp: controlHex_def split: if_splits)

lemma lexScan_jsonEscape_char:
  assumes "lexMode st = Inside" and "\<not> closed st"
  shows "lexScan (jsonEscape_char c) st = st"
proof (cases "c = CHR 0x22 \<or> c = CHR 0x5C")
  case True
  with assms show ?thesis by (auto simp: jsonEscape_char_def lexStep_def lexMode_same)
next
  case False
  show ?thesis
  proof (cases "map_of shortEscapes c")
    case (Some e)
    with False assms show ?thesis by (simp add: jsonEscape_char_def lexStep_def lexMode_same)
  next
    case None
    show ?thesis
    proof (cases "map_of controlHex c")
      case (Some h)
      from controlHex_plain [OF this] assms
      have "lexScan (''u00'' @ h) st = st" by (intro lexScan_plain) auto
      with False None Some assms show ?thesis
        by (simp add: jsonEscape_char_def lexStep_def lexMode_same)
    next
      case n: None
      with False None assms show ?thesis by (simp add: jsonEscape_char_def lexStep_def)
    qed
  qed
qed

lemma lexScan_escaped:
  "lexMode st = Inside \<Longrightarrow> \<not> closed st \<Longrightarrow> lexScan (concat (map jsonEscape_char s)) st = st"
  by (induction s) (simp_all add: lexScan_jsonEscape_char)

lemma lexScan_jsonString:
  assumes "lexMode st = Outside" and "\<not> closed st"
  shows "lexScan (jsonString s) st = st\<lparr>afterString := True\<rparr>"
proof -
  let ?st = "st\<lparr>lexMode := Inside, afterString := False\<rparr>"
  have "lexScan (concat (map jsonEscape_char s)) ?st = ?st"
    using assms by (intro lexScan_escaped) simp_all
  with assms show ?thesis by (simp add: jsonString_def lexStep_def lexMode_same)
qed

lemma lexScan_jsonObject:
  assumes "lexMode st = Outside" and "\<not> closed st"
  shows "lexScan (jsonObject d) st = st\<lparr>afterString := False\<rparr>"
  using assms by (simp add: jsonObject_def lexScan_jsonString lexStep_def)

lemma join_Cons: "join sep (x # xs) = x @ (if xs = [] then [] else sep @ join sep xs)"
  by (cases xs) simp_all

lemma lexScan_objects:
  assumes "lexMode st = Outside" and "\<not> closed st"
  shows "lexScan (join '','' (map jsonObject ds)) st = (if ds = [] then st else st\<lparr>afterString := False\<rparr>)"
  using assms
proof (induction ds arbitrary: st)
  case Nil
  then show ?case by simp
next
  case (Cons d ds)
  let ?st = "st\<lparr>afterString := False\<rparr>"
  from Cons.prems have o: "lexScan (jsonObject d) st = ?st" by (rule lexScan_jsonObject)
  show ?case
  proof (cases "ds = []")
    case True
    with o show ?thesis by simp
  next
    case False
    have "lexStep CHR '','' ?st = ?st" using Cons.prems by (simp add: lexStep_def)
    moreover have "lexScan (join '','' (map jsonObject ds)) ?st = ?st"
      using Cons.IH [of ?st] Cons.prems False by simp
    ultimately show ?thesis using False o by (simp add: join_Cons)
  qed
qed

lemma lexScan_jsonArray:
  assumes "lexMode st = Outside" and "\<not> closed st"
  shows "lexScan (jsonArray ds) st
     = (if depth st = 0 then st\<lparr>closed := True, afterString := False\<rparr>
        else st\<lparr>afterString := False\<rparr>)"
proof -
  let ?st = "st\<lparr>depth := depth st + 1, afterString := False\<rparr>"
  have 1: "lexStep CHR ''['' st = ?st" using assms by (simp add: lexStep_def)
  have 2: "lexScan (join '','' (map jsonObject ds)) ?st = ?st"
    using lexScan_objects [of ?st ds] assms by (cases "ds = []") simp_all
  have 3: "lexStep CHR '']'' ?st
     = (if depth st = 0 then st\<lparr>closed := True, afterString := False\<rparr>
        else st\<lparr>afterString := False\<rparr>)"
    using assms by (cases st) (simp add: lexStep_def)
  from 1 2 3 show ?thesis by (simp add: jsonArray_def)
qed

text \<open>Once a bracket is open, the depth stays positive until the array is closed.\<close>

lemma open_lexStep:
  "0 < depth st \<or> closed st \<or> flagged st \<Longrightarrow>
   0 < depth (lexStep c st) \<or> closed (lexStep c st) \<or> flagged (lexStep c st)"
  by (auto simp: lexStep_def split: lexMode.splits)

lemma open_lexScan:
  "0 < depth st \<or> closed st \<or> flagged st \<Longrightarrow>
   0 < depth (lexScan w st) \<or> closed (lexScan w st) \<or> flagged (lexScan w st)"
proof (induction w arbitrary: st)
  case Nil
  then show ?case by simp
next
  case (Cons c w)
  from Cons.prems have "0 < depth (lexStep c st) \<or> closed (lexStep c st) \<or> flagged (lexStep c st)"
    by (rule open_lexStep)
  then show ?case using Cons.IH [of "lexStep c st"] by simp
qed

lemma jsonArray_head: "\<exists>w. jsonArray ds = CHR ''['' # w"
  by (simp add: jsonArray_def)

lemma jsonArray_Nil: "jsonArray [] = ''[]''"
  by (simp add: jsonArray_def)

lemma jsonString_question: "jsonString ''question'' = CHR 0x22 # ''question'' @ [CHR 0x22]"
  by code_simp

lemma jsonArray_Cons: "\<exists>w. jsonArray (d # ds) = [CHR ''['', CHR ''{'', CHR 0x22, CHR ''q''] @ w"
  by (simp add: jsonArray_def join_Cons jsonObject_def jsonString_question)

text \<open>Read from inside a string, the text of an array ends inside a string or is flagged.\<close>

lemma lexScan_jsonArray_inside:
  assumes "lexMode st = Inside \<or> lexMode st = Escaped" and "\<not> closed st"
  shows "lexMode (lexScan (jsonArray ds) st) \<noteq> Outside \<or> flagged (lexScan (jsonArray ds) st)"
proof (cases ds)
  case Nil
  show ?thesis
  proof (cases "lexMode st = Inside")
    case True
    with assms(2) show ?thesis unfolding Nil by (simp add: jsonArray_Nil lexStep_def)
  next
    case False
    with assms have "lexMode st = Escaped" by simp
    with assms(2) show ?thesis unfolding Nil by (simp add: jsonArray_Nil lexStep_def)
  qed
next
  case (Cons d ds')
  from jsonArray_Cons obtain w
    where w: "jsonArray (d # ds') = [CHR ''['', CHR ''{'', CHR 0x22, CHR ''q''] @ w" by blast
  have "flagged (lexScan [CHR ''['', CHR ''{'', CHR 0x22, CHR ''q''] st)"
  proof (cases "lexMode st = Inside")
    case True
    with assms(2) show ?thesis by (simp add: lexStep_def)
  next
    case False
    with assms have "lexMode st = Escaped" by simp
    with assms(2) show ?thesis by (simp add: lexStep_def)
  qed
  then have "flagged (lexScan w (lexScan [CHR ''['', CHR ''{'', CHR 0x22, CHR ''q''] st))"
    by (rule flagged_lexScan)
  then show ?thesis unfolding Cons w by simp
qed

text \<open>No serialized array is a proper suffix of another.\<close>

lemma jsonArray_suffix:
  assumes "jsonArray ds' = us @ jsonArray ds"
  shows "us = []"
proof (rule ccontr)
  assume ne: "us \<noteq> []"
  let ?st = "lexScan us lexStart"
  have end': "lexScan (jsonArray ds') lexStart = lexStart\<lparr>closed := True, afterString := False\<rparr>"
    by (simp add: lexScan_jsonArray lexStart_def)
  then have e: "lexScan (jsonArray ds) ?st = lexStart\<lparr>closed := True, afterString := False\<rparr>"
    unfolding assms by simp
  from jsonArray_head [of ds'] assms ne obtain us' where us: "us = CHR ''['' # us'"
    by (cases us) auto
  have "0 < depth (lexStep CHR ''['' lexStart)" by (simp add: lexStep_def lexStart_def)
  then have op: "0 < depth ?st \<or> closed ?st \<or> flagged ?st"
    unfolding us using open_lexScan [of "lexStep CHR ''['' lexStart" us'] by simp
  have nf: "\<not> flagged ?st"
  proof
    assume "flagged ?st"
    then have "flagged (lexScan (jsonArray ds) ?st)" by (rule flagged_lexScan)
    with e show False by (simp add: lexStart_def)
  qed
  have nc: "\<not> closed ?st"
  proof
    assume "closed ?st"
    moreover from jsonArray_head [of ds] have "jsonArray ds \<noteq> []" by auto
    ultimately have "flagged (lexScan (jsonArray ds) ?st)" by (rule closed_lexScan)
    with e show False by (simp add: lexStart_def)
  qed
  show False
  proof (cases "lexMode ?st = Outside")
    case True
    from op nf nc have "depth ?st \<noteq> 0" by simp
    with lexScan_jsonArray [OF True nc, of ds] nc
    have "\<not> closed (lexScan (jsonArray ds) ?st)" by simp
    with e show False by simp
  next
    case False
    then have "lexMode ?st = Inside \<or> lexMode ?st = Escaped" by (cases "lexMode ?st") simp_all
    from lexScan_jsonArray_inside [OF this nc, of ds] e show False by (simp add: lexStart_def)
  qed
qed

lemma jsonArray_same_end:
  assumes "p @ jsonArray ds = p' @ jsonArray ds'"
  shows "p = p'"
proof -
  from assms consider us where "p = p' @ us" "us @ jsonArray ds = jsonArray ds'"
    | us where "p @ us = p'" "jsonArray ds = us @ jsonArray ds'"
    by (auto simp: append_eq_append_conv2)
  then show ?thesis
  proof cases
    case 1
    from jsonArray_suffix [OF 1(2) [symmetric]] 1(1) show ?thesis by simp
  next
    case 2
    from jsonArray_suffix [OF 2(2)] 2(1) show ?thesis by simp
  qed
qed

text \<open>The decimal digits of a number hold no colon.\<close>

lemma decimal_no_colon: "CHR '':'' \<notin> set (decimal n)"
proof (induction n rule: decimal.induct)
  case (1 n)
  have d: "''0123456789'' ! k \<noteq> CHR '':''" if "k < 10" for k :: nat
  proof -
    have "CHR '':'' \<notin> set ''0123456789''" by simp
    moreover from that have "''0123456789'' ! k \<in> set ''0123456789''"
      by (intro nth_mem) simp
    ultimately show ?thesis by metis
  qed
  show ?case
  proof (cases "n < 10")
    case True
    with d [of n] show ?thesis by (subst decimal.simps) simp
  next
    case False
    with 1 d [of "n mod 10"] show ?thesis by (subst decimal.simps) simp
  qed
qed

lemma split_at_first:
  assumes "c \<notin> set xs" and "c \<notin> set xs'" and "xs @ c # ys = xs' @ c # ys'"
  shows "ys = ys'"
proof -
  have "dropWhile (\<lambda>x. x \<noteq> c) (zs @ c # ws) = c # ws" if "c \<notin> set zs" for zs ws
  proof -
    have "dropWhile (\<lambda>x. x \<noteq> c) (zs @ c # ws) = dropWhile (\<lambda>x. x \<noteq> c) (c # ws)"
      using that by (intro dropWhile_append2) auto
    then show ?thesis by simp
  qed
  from this [OF assms(1), of ys] this [OF assms(2), of ys'] assms(3) show ?thesis by simp
qed

lemma split_at_last:
  assumes "xs @ c # ys = xs' @ c # ys'" and "c \<notin> set ys" and "c \<notin> set ys'"
  shows "xs = xs'"
proof -
  from assms(1) have "rev (xs @ c # ys) = rev (xs' @ c # ys')" by (rule arg_cong)
  then have e: "rev ys @ c # rev xs = rev ys' @ c # rev xs'" by simp
  from assms(2,3) have n: "c \<notin> set (rev ys)" "c \<notin> set (rev ys')" by simp_all
  from n e have "rev xs = rev xs'" by (rule split_at_first)
  then show ?thesis by simp
qed

text \<open>Quizzes with the same content hash have the same normalized title.\<close>

lemma createContentHash_title:
  assumes "createContentHash collate quiz = createContentHash collate quiz'"
  shows "normalized (title quiz) = normalized (title quiz')"
proof -
  let ?ds = "sort_key (\<lambda>d. collate (d_question d)) (map questionData (questions quiz))"
  let ?ds' = "sort_key (\<lambda>d. collate (d_question d)) (map questionData (questions quiz'))"
  let ?n = "decimal (length ?ds)" and ?n' = "decimal (length ?ds')"
  from assms have "(normalized (title quiz) @ CHR '':'' # ?n @ '':'') @ jsonArray ?ds
      = (normalized (title quiz') @ CHR '':'' # ?n' @ '':'') @ jsonArray ?ds'"
    by (simp add: createContentHash_def Let_def)
  then have "normalized (title quiz) @ CHR '':'' # ?n @ '':''
      = normalized (title quiz') @ CHR '':'' # ?n' @ '':''"
    by (rule jsonArray_same_end)
  then have "(normalized (title quiz) @ CHR '':'' # ?n) @ '':''
      = (normalized (title quiz') @ CHR '':'' # ?n') @ '':''" by simp
  then have "normalized (title quiz) @ CHR '':'' # ?n = normalized (title quiz') @ CHR '':'' # ?n'"
    by (simp only: append_same_eq)
  then show ?thesis by (rule split_at_last) (rule decimal_no_colon)+
qed

subsection \<open>Running the duplicate removal\<close>

lemma wf_collection_ids:
  assumes "wf_collection c"
  shows "map id' (map snd c) = map fst c" and "distinct (map id' (map snd c))"
proof -
  from assms show e: "map id' (map snd c) = map fst c"
    by (simp add: wf_collection_def list_all_iff)
  from assms have "distinct (map fst c)" by (simp add: wf_collection_def)
  then show "distinct (map id' (map snd c))" unfolding e .
qed

lemma removeDuplicateQuizzes_values:
  assumes w: "wf_collection (quizCollection s)"
  shows "allValues (snd (removeDuplicateQuizzes collate s))
     = filter (\<lambda>quiz. id' quiz \<in> finalUniqueQuizIds (findDuplicates collate (allValues s)))
         (allValues s)"
proof -
  let ?R = "duplicatesRemoved (findDuplicates collate (allValues s))"
  let ?F = "finalUniqueQuizIds (findDuplicates collate (allValues s))"
  from w have d: "distinct (map id' (allValues s))"
    unfolding allValues_def by (rule wf_collection_ids)
  note r = findDuplicates_result(1) [OF d, of collate]
  have "allValues (snd (removeDuplicateQuizzes collate s))
      = map snd (filter (\<lambda>e. fst e \<notin> id' ` set ?R) (quizCollection s))"
    by (simp add: allValues_def removeDuplicateQuizzes_collection)
  also have "\<dots> = map snd (filter (\<lambda>e. id' (snd e) \<in> ?F) (quizCollection s))"
  proof -
    have "(fst e \<notin> id' ` set ?R) = (id' (snd e) \<in> ?F)" if "e \<in> set (quizCollection s)" for e
    proof -
      from w that have "fst e = id' (snd e)" by (auto simp: wf_collection_def list_all_iff)
      moreover from that have "id' (snd e) \<in> id' ` set (allValues s)"
        by (simp add: allValues_def)
      ultimately show ?thesis unfolding r by simp
    qed
    then have "filter (\<lambda>e. fst e \<notin> id' ` set ?R) (quizCollection s)
        = filter (\<lambda>e. id' (snd e) \<in> ?F) (quizCollection s)"
      by (intro filter_cong) simp_all
    then show ?thesis by (rule arg_cong)
  qed
  also have "\<dots> = filter (\<lambda>quiz. id' quiz \<in> ?F) (allValues s)"
    by (simp add: allValues_def filter_map comp_def)
  finally show ?thesis .
qed

text \<open>
  Claim C6. In a storage whose quizzes are stored under their own distinct ids, a second
  run of \<^verbatim>\<open>removeDuplicateQuizzes\<close> right after a first one returns 0 and leaves the storage
  as the first run left it. It holds for every collation.
\<close>

theorem removeDuplicateQuizzes_idempotent:
  "wf_collection (quizCollection s) \<longrightarrow>
     removeDuplicateQuizzes collate (snd (removeDuplicateQuizzes collate s))
       = (0, snd (removeDuplicateQuizzes collate s))"
proof
  assume w: "wf_collection (quizCollection s)"
  let ?s = "snd (removeDuplicateQuizzes collate s)"
  from w have d: "distinct (map id' (allValues s))"
    unfolding allValues_def by (rule wf_collection_ids)
  note v = removeDuplicateQuizzes_values [OF w, of collate]
  from d have "distinct (map id' (allValues ?s))" unfolding v by (rule distinct_map_filter)
  moreover have "duplicateFree collate (allValues ?s)"
    unfolding v using d by (rule findDuplicates_result(2))
  ultimately have "duplicatesRemoved (findDuplicates collate (allValues ?s)) = []"
    by (rule findDuplicates_clean)
  then show "removeDuplicateQuizzes collate ?s = (0, ?s)" by (rule removeDuplicateQuizzes_none)
qed

theorem removeDuplicateQuizzes_idempotent_witness:
  "removeDuplicateQuizzes (\<lambda>x. x)
     \<lparr>quizCollection =
        [(1, exampleQuiz 1 (Some ''u1'') ''Math Quiz'' [] 1 5),
         (2, exampleQuiz 2 (Some ''u1'') ''Math Quiz'' [] 2 6),
         (3, exampleQuiz 3 (Some ''u2'') ''History'' [] 1 7)],
       quizCurrentId = 4\<rparr>
     = (1, \<lparr>quizCollection =
        [(2, exampleQuiz 2 (Some ''u1'') ''Math Quiz'' [] 2 6),
         (3, exampleQuiz 3 (Some ''u2'') ''History'' [] 1 7)],
       quizCurrentId = 4\<rparr>)
   \<and> removeDuplicateQuizzes (\<lambda>x. x)
     \<lparr>quizCollection =
        [(2, exampleQuiz 2 (Some ''u1'') ''Math Quiz'' [] 2 6),
         (3, exampleQuiz 3 (Some ''u2'') ''History'' [] 1 7)],
       quizCurrentId = 4\<rparr>
     = (0, \<lparr>quizCollection =
        [(2, exampleQuiz 2 (Some ''u1'') ''Math Quiz'' [] 2 6),
         (3, exampleQuiz 3 (Some ''u2'') ''History'' [] 1 7)],
       quizCurrentId = 4\<rparr>)"
proof -
  let ?s = "\<lparr>quizCollection =
        [(1, exampleQuiz 1 (Some ''u1'') ''Math Quiz'' [] 1 5),
         (2, exampleQuiz 2 (Some ''u1'') ''Math Quiz'' [] 2 6),
         (3, exampleQuiz 3 (Some ''u2'') ''History'' [] 1 7)],
       quizCurrentId = 4\<rparr>"
  let ?s' = "\<lparr>quizCollection =
        [(2, exampleQuiz 2 (Some ''u1'') ''Math Quiz'' [] 2 6),
         (3, exampleQuiz 3 (Some ''u2'') ''History'' [] 1 7)],
       quizCurrentId = 4\<rparr>"
  have w: "wf_collection (quizCollection ?s)" by code_simp
  have r: "removeDuplicateQuizzes (\<lambda>x. x) ?s = (1, ?s')" by code_simp
  from removeDuplicateQuizzes_idempotent [of ?s "\<lambda>x. x"] w
  have "removeDuplicateQuizzes (\<lambda>x. x) (snd (removeDuplicateQuizzes (\<lambda>x. x) ?s))
       = (0, snd (removeDuplicateQuizzes (\<lambda>x. x) ?s))" by blast
  with r show ?thesis by simp
qed

lemma distinct_map_coarser:
  assumes "distinct (map f xs)" and "\<And>x y. g x = g y \<Longrightarrow> f x = f y"
  shows "distinct (map g xs)"
  using assms(1)
proof (induction xs)
  case Nil
  then show ?case by simp
next
  case (Cons x xs)
  then have "f x \<notin> f ` set xs" and "distinct (map g xs)" by simp_all
  moreover have "g x \<notin> g ` set xs"
  proof
    assume "g x \<in> g ` set xs"
    then obtain y where "y \<in> set xs" "g x = g y" by auto
    with assms(2) [of x y] \<open>f x \<notin> f ` set xs\<close> show False by auto
  qed
  ultimately show ?case by simp
qed

lemma sorted_wrt_distinct_key:
  "distinct (map key xs) \<Longrightarrow> sorted_wrt (\<lambda>a b. key a = key b \<longrightarrow> R a b) xs"
  by (induction xs) auto

text \<open>
  Claim C10. In a storage whose quizzes are stored under their own distinct ids, if the
  \<^verbatim>\<open>uniqueId\<close>s of the quizzes that have one are pairwise distinct and the normalized titles
  of all quizzes are pairwise distinct, \<^verbatim>\<open>removeDuplicateQuizzes\<close> returns 0 and leaves the
  storage unchanged.
\<close>

theorem removeDuplicateQuizzes_distinct:
  "wf_collection (quizCollection s)
   \<and> distinct (map uniqueId (filter (\<lambda>quiz. truthy_string (uniqueId quiz)) (allValues s)))
   \<and> distinct (map (\<lambda>quiz. normalized (title quiz)) (allValues s))
   \<longrightarrow> removeDuplicateQuizzes collate s = (0, s)"
proof
  assume a: "wf_collection (quizCollection s)
   \<and> distinct (map uniqueId (filter (\<lambda>quiz. truthy_string (uniqueId quiz)) (allValues s)))
   \<and> distinct (map (\<lambda>quiz. normalized (title quiz)) (allValues s))"
  then have w: "wf_collection (quizCollection s)"
    and u: "distinct (map uniqueId (filter (\<lambda>quiz. truthy_string (uniqueId quiz)) (allValues s)))"
    and t: "distinct (map (\<lambda>quiz. normalized (title quiz)) (allValues s))"
    by blast+
  from w have d: "distinct (map id' (allValues s))"
    unfolding allValues_def by (rule wf_collection_ids)
  from t have "distinct (map (\<lambda>quiz. normalized (title quiz))
      (filter (\<lambda>quiz. \<not> truthy_string (uniqueId quiz)) (allValues s)))"
    by (rule distinct_map_filter)
  then have h: "distinct (map (createContentHash collate)
      (filter (\<lambda>quiz. \<not> truthy_string (uniqueId quiz)) (allValues s)))"
    by (rule distinct_map_coarser) (rule createContentHash_title)
  from t have p: "sorted_wrt (\<lambda>quiz1 quiz2. normalized (title quiz1) = normalized (title quiz2)
      \<longrightarrow> \<not> isDuplicatePair quiz1 quiz2) (allValues s)"
    by (rule sorted_wrt_distinct_key)
  from u h p have "duplicateFree collate (allValues s)" unfolding duplicateFree_def by blast
  with d have "duplicatesRemoved (findDuplicates collate (allValues s)) = []"
    by (rule findDuplicates_clean)
  then show "removeDuplicateQuizzes collate s = (0, s)" by (rule removeDuplicateQuizzes_none)
qed

theorem removeDuplicateQuizzes_distinct_witness:
  "removeDuplicateQuizzes (\<lambda>x. x)
     \<lparr>quizCollection =
        [(1, exampleQuiz 1 (Some ''u1'') ''Math Quiz'' [exampleQuestion ''2+2?'' ''4''] 1 5),
         (2, exampleQuiz 2 None ''History'' [exampleQuestion ''2+2?'' ''4''] 1 6)],
       quizCurrentId = 3\<rparr>
     = (0, \<lparr>quizCollection =
        [(1, exampleQuiz 1 (Some ''u1'') ''Math Quiz'' [exampleQuestion ''2+2?'' ''4''] 1 5),
         (2, exampleQuiz 2 None ''History'' [exampleQuestion ''2+2?'' ''4''] 1 6)],
       quizCurrentId = 3\<rparr>)"
proof -
  let ?s = "\<lparr>quizCollection =
        [(1, exampleQuiz 1 (Some ''u1'') ''Math Quiz'' [exampleQuestion ''2+2?'' ''4''] 1 5),
         (2, exampleQuiz 2 None ''History'' [exampleQuestion ''2+2?'' ''4''] 1 6)],
       quizCurrentId = 3\<rparr>"
  have h: "wf_collection (quizCollection ?s)
   \<and> distinct (map uniqueId (filter (\<lambda>quiz. truthy_string (uniqueId quiz)) (allValues ?s)))
   \<and> distinct (map (\<lambda>quiz. normalized (title quiz)) (allValues ?s))" by code_simp
  from removeDuplicateQuizzes_distinct [of ?s "\<lambda>x. x"] h show ?thesis by blast
qed

subsection \<open>Two similar quizzes\<close>

lemma zip_filter_le:
  assumes "\<And>x y. y \<in> set ys \<Longrightarrow> P (x, y) \<Longrightarrow> Q x"
  shows "length (filter P (zip xs ys)) \<le> length (filter Q xs)"
  using assms
proof (induction xs arbitrary: ys)
  case Nil
  then show ?case by simp
next
  case (Cons x xs)
  show ?case
  proof (cases ys)
    case Nil
    then show ?thesis by simp
  next
    case c: (Cons y ys')
    have "length (filter P (zip xs ys')) \<le> length (filter Q xs)"
    proof (rule Cons.IH)
      fix x' y' assume "y' \<in> set ys'" and "P (x', y')"
      then show "Q x'" using Cons.prems [of y' x'] c by simp
    qed
    moreover have "P (x, y) \<Longrightarrow> Q x" using Cons.prems [of y x] c by simp
    ultimately show ?thesis using c by auto
  qed
qed

lemma sharedAnswers_le_matchCount: "sharedAnswers qs1 qs2 \<le> matchCount qs1 qs2"
  unfolding sharedAnswers_def matchCount_filter hasMatch_iff
  by (rule zip_filter_le) (auto simp: questionsMatch_def)

lemma pair_pass1_both:
  assumes "truthy_string (uniqueId quizA)" and "truthy_string (uniqueId quizB)"
    and "uniqueId quizA = uniqueId quizB" and "id' quizA \<noteq> id' quizB"
  shows "duplicatesRemoved (findDuplicates collate [quizA, quizB])
           = (if keepNew quizB quizA then [quizA] else [quizB])"
  using assms
  by (simp add: findDuplicates_def pass1Step_def pass2Step_def titleMapStep_def groupStep_def
      initialState_def Let_def)

lemma pair_pass2_both:
  assumes "\<not> truthy_string (uniqueId quizA)" and "\<not> truthy_string (uniqueId quizB)"
    and "createContentHash collate quizA = createContentHash collate quizB"
    and "id' quizA \<noteq> id' quizB"
  shows "duplicatesRemoved (findDuplicates collate [quizA, quizB])
           = (if keepNew quizB quizA then [quizA] else [quizB])"
  using assms
  by (simp add: findDuplicates_def pass1Step_def pass2Step_def titleMapStep_def groupStep_def
      initialState_def Let_def)

lemma pair_pass1_none:
  assumes "\<not> (truthy_string (uniqueId quizA) \<and> truthy_string (uniqueId quizB))"
  shows "\<exists>m. fold pass1Step [quizA, quizB] initialState
           = \<lparr>uniqueIdMap = m, contentHashMap = Map.empty, uniqueQuizIds = {id' quizA, id' quizB},
              finalUniqueQuizIds = {}, duplicatesRemoved = []\<rparr>"
proof (cases "truthy_string (uniqueId quizA)")
  case True
  with assms have "\<not> truthy_string (uniqueId quizB)" by simp
  with True show ?thesis
    by (simp add: pass1Step_def initialState_def insert_commute)
next
  case False
  then show ?thesis
    by (cases "truthy_string (uniqueId quizB)")
      (simp_all add: pass1Step_def initialState_def insert_commute)
qed

lemma pair_pass2_none:
  assumes "\<not> truthy_string (uniqueId quizA) \<and> \<not> truthy_string (uniqueId quizB)
         \<longrightarrow> createContentHash collate quizA \<noteq> createContentHash collate quizB"
  shows "\<exists>m'. fold (pass2Step collate) [quizA, quizB]
            \<lparr>uniqueIdMap = m, contentHashMap = Map.empty, uniqueQuizIds = {id' quizA, id' quizB},
              finalUniqueQuizIds = {}, duplicatesRemoved = []\<rparr>
           = \<lparr>uniqueIdMap = m, contentHashMap = m', uniqueQuizIds = {id' quizA, id' quizB},
              finalUniqueQuizIds = {}, duplicatesRemoved = []\<rparr>"
proof (cases "truthy_string (uniqueId quizA)")
  case True
  then show ?thesis
    by (cases "truthy_string (uniqueId quizB)") (simp_all add: pass2Step_def Let_def)
next
  case False
  show ?thesis
  proof (cases "truthy_string (uniqueId quizB)")
    case True
    with False show ?thesis by (simp add: pass2Step_def Let_def)
  next
    case b: False
    with False assms have "createContentHash collate quizA \<noteq> createContentHash collate quizB"
      by simp
    with False b show ?thesis by (simp add: pass2Step_def Let_def)
  qed
qed

lemma pair_titleMap:
  assumes "normalized (title quizA) = normalized (title quizB)"
  shows "fold (titleMapStep {id' quizA, id' quizB}) [quizA, quizB] []
           = [(normalized (title quizB), [quizA, quizB])]"
  using assms by (simp add: titleMapStep_def Let_def)

lemma pair_outerLoop:
  assumes "id' quizA \<noteq> id' quizB"
    and "\<not> distinctUniqueIds quizA quizB"
  shows "duplicatesRemoved (outerLoop [quizA, quizB]
            \<lparr>uniqueIdMap = m, contentHashMap = m', uniqueQuizIds = {id' quizA, id' quizB},
              finalUniqueQuizIds = {id' quizA, id' quizB}, duplicatesRemoved = []\<rparr>)
           = (if similarQuestions quizA quizB then (if keepNew quizA quizB then [quizB] else [quizA])
              else [])"
  using assms by simp

lemma pair_pass3:
  assumes n: "\<not> (truthy_string (uniqueId quizA) \<and> truthy_string (uniqueId quizB))"
    and h: "\<not> truthy_string (uniqueId quizA) \<and> \<not> truthy_string (uniqueId quizB)
         \<longrightarrow> createContentHash collate quizA \<noteq> createContentHash collate quizB"
    and i: "id' quizA \<noteq> id' quizB"
    and t: "normalized (title quizA) = normalized (title quizB)"
  shows "duplicatesRemoved (findDuplicates collate [quizA, quizB])
           = (if similarQuestions quizA quizB then (if keepNew quizA quizB then [quizB] else [quizA])
              else [])"
proof -
  from n obtain m where s1: "fold pass1Step [quizA, quizB] initialState
           = \<lparr>uniqueIdMap = m, contentHashMap = Map.empty, uniqueQuizIds = {id' quizA, id' quizB},
              finalUniqueQuizIds = {}, duplicatesRemoved = []\<rparr>"
    using pair_pass1_none by blast
  from h obtain m' where s2: "fold (pass2Step collate) [quizA, quizB]
            \<lparr>uniqueIdMap = m, contentHashMap = Map.empty, uniqueQuizIds = {id' quizA, id' quizB},
              finalUniqueQuizIds = {}, duplicatesRemoved = []\<rparr>
           = \<lparr>uniqueIdMap = m, contentHashMap = m', uniqueQuizIds = {id' quizA, id' quizB},
              finalUniqueQuizIds = {}, duplicatesRemoved = []\<rparr>"
    using pair_pass2_none [of quizA quizB collate m] by blast
  from n have d: "\<not> distinctUniqueIds quizA quizB" by (auto simp add: distinctUniqueIds_def)
  have "findDuplicates collate [quizA, quizB]
      = groupStep (normalized (title quizB), [quizA, quizB])
          \<lparr>uniqueIdMap = m, contentHashMap = m', uniqueQuizIds = {id' quizA, id' quizB},
              finalUniqueQuizIds = {id' quizA, id' quizB}, duplicatesRemoved = []\<rparr>"
    unfolding findDuplicates_unfold s1 s2 by (simp add: pair_titleMap [OF t, simplified])
  also have "\<dots> = outerLoop [quizA, quizB]
          \<lparr>uniqueIdMap = m, contentHashMap = m', uniqueQuizIds = {id' quizA, id' quizB},
              finalUniqueQuizIds = {id' quizA, id' quizB}, duplicatesRemoved = []\<rparr>"
    by (simp add: groupStep_def)
  finally show ?thesis by (simp only: pair_outerLoop [OF i d])
qed

lemma pair_removed:
  assumes i: "id' quizA \<noteq> id' quizB"
    and t: "normalized (title quizA) = normalized (title quizB)"
    and d: "\<not> distinctUniqueIds quizA quizB"
    and s: "similarQuestions quizA quizB"
  shows "duplicatesRemoved (findDuplicates collate [quizA, quizB]) = [quizA]
       \<or> duplicatesRemoved (findDuplicates collate [quizA, quizB]) = [quizB]"
proof (cases "truthy_string (uniqueId quizA) \<and> truthy_string (uniqueId quizB)")
  case True
  with d have "uniqueId quizA = uniqueId quizB" by (simp add: distinctUniqueIds_def)
  with True i show ?thesis using pair_pass1_both [of quizA quizB collate] by simp
next
  case n: False
  show ?thesis
  proof (cases "\<not> truthy_string (uniqueId quizA) \<and> \<not> truthy_string (uniqueId quizB)
         \<and> createContentHash collate quizA = createContentHash collate quizB")
    case True
    with i show ?thesis using pair_pass2_both [of quizA quizB collate] by simp
  next
    case False
    then have "\<not> truthy_string (uniqueId quizA) \<and> \<not> truthy_string (uniqueId quizB)
         \<longrightarrow> createContentHash collate quizA \<noteq> createContentHash collate quizB" by blast
    with n have "duplicatesRemoved (findDuplicates collate [quizA, quizB])
           = (if similarQuestions quizA quizB then (if keepNew quizA quizB then [quizB] else [quizA])
              else [])" using i t by (rule pair_pass3)
    with s show ?thesis by simp
  qed
qed

lemma pair_kept:
  assumes i: "id' quizA \<noteq> id' quizB"
    and t: "normalized (title quizA) = normalized (title quizB)"
    and n: "\<not> (truthy_string (uniqueId quizA) \<and> truthy_string (uniqueId quizB))"
    and h: "\<not> truthy_string (uniqueId quizA) \<and> \<not> truthy_string (uniqueId quizB)
         \<longrightarrow> createContentHash collate quizA \<noteq> createContentHash collate quizB"
    and s: "\<not> similarQuestions quizA quizB"
  shows "duplicatesRemoved (findDuplicates collate [quizA, quizB]) = []"
proof -
  from n h i t have "duplicatesRemoved (findDuplicates collate [quizA, quizB])
           = (if similarQuestions quizA quizB then (if keepNew quizA quizB then [quizB] else [quizA])
              else [])" by (rule pair_pass3)
  with s show ?thesis by simp
qed

lemma similarQuestions_five:
  assumes "length (questions quizA) = 5" and "length (questions quizB) = 5"
  shows "similarQuestions quizA quizB \<longleftrightarrow> 4 \<le> matchCount (questions quizA) (questions quizB)"
  using assms by (simp add: similarQuestions_def Let_def)

lemma removeDuplicateQuizzes_pair:
  assumes c: "quizCollection s = [(id' quizA, quizA), (id' quizB, quizB)]"
    and i: "id' quizA \<noteq> id' quizB"
  shows "duplicatesRemoved (findDuplicates collate [quizA, quizB]) = [quizA]
          \<Longrightarrow> removeDuplicateQuizzes collate s = (1, s\<lparr>quizCollection := [(id' quizB, quizB)]\<rparr>)"
    and "duplicatesRemoved (findDuplicates collate [quizA, quizB]) = [quizB]
          \<Longrightarrow> removeDuplicateQuizzes collate s = (1, s\<lparr>quizCollection := [(id' quizA, quizA)]\<rparr>)"
  using c i by (simp_all add: removeDuplicateQuizzes_def allValues_def deleteStep_def Let_def)

lemma sharedAnswers_commute: "sharedAnswers qs2 qs1 = sharedAnswers qs1 qs2"
proof -
  have "zip qs2 qs1 = map (\<lambda>pair. (snd pair, fst pair)) (zip qs1 qs2)"
    by (subst zip_commute) (simp add: case_prod_beta)
  then show ?thesis
    by (simp add: sharedAnswers_def filter_map comp_def eq_commute)
qed

lemma sorted_wrt_pair:
  assumes "sorted_wrt R xs" and "a \<in> set xs" and "b \<in> set xs" and "a \<noteq> b"
  shows "R a b \<or> R b a"
  using assms by (induction xs) auto

lemma pair_not_both_kept:
  assumes w: "wf_collection (quizCollection s)"
    and t: "normalized (title quizA) = normalized (title quizB)"
    and ab: "isDuplicatePair quizA quizB" and ba: "isDuplicatePair quizB quizA"
    and n: "quizA \<noteq> quizB"
  shows "\<not> (quizA \<in> set (allValues (snd (removeDuplicateQuizzes collate s)))
            \<and> quizB \<in> set (allValues (snd (removeDuplicateQuizzes collate s))))"
proof
  let ?F = "finalUniqueQuizIds (findDuplicates collate (allValues s))"
  let ?kept = "filter (\<lambda>quiz. id' quiz \<in> ?F) (allValues s)"
  assume "quizA \<in> set (allValues (snd (removeDuplicateQuizzes collate s)))
            \<and> quizB \<in> set (allValues (snd (removeDuplicateQuizzes collate s)))"
  then have k: "quizA \<in> set ?kept" "quizB \<in> set ?kept"
    unfolding removeDuplicateQuizzes_values [OF w, of collate] by blast+
  from w have "distinct (map id' (allValues s))"
    unfolding allValues_def by (rule wf_collection_ids)
  then have "duplicateFree collate ?kept" by (rule findDuplicates_result(2))
  then have "sorted_wrt (\<lambda>quiz1 quiz2. normalized (title quiz1) = normalized (title quiz2)
            \<longrightarrow> \<not> isDuplicatePair quiz1 quiz2) ?kept"
    unfolding duplicateFree_def by blast
  from sorted_wrt_pair [OF this k n] t ab ba show False by simp
qed

text \<open>
  Claim C1, as the code has it, for two records with the same normalized title and five
  questions each that do not carry two different \<^verbatim>\<open>uniqueId\<close>s. If they agree on the
  normalized correct answer of at least four of the five questions, then in every storage
  \<^verbatim>\<open>removeDuplicateQuizzes\<close> removes at least one of the two, and in a storage that holds
  just the two it returns 1 and keeps exactly one of them. In a storage that holds just
  the two, it returns 0 and removes neither if fewer than four questions of the first
  record match a question of the second by normalized prompt or by normalized correct
  answer, the two do not both carry a \<^verbatim>\<open>uniqueId\<close>, and their content hashes differ in case
  neither carries one. It holds for every collation.
\<close>

theorem fuzzy_match_pair:
  "normalized (title quizA) = normalized (title quizB)
   \<and> length (questions quizA) = 5 \<and> length (questions quizB) = 5
   \<and> \<not> distinctUniqueIds quizA quizB
   \<longrightarrow>
     (wf_collection (quizCollection s) \<and> quizA \<in> set (allValues s) \<and> quizB \<in> set (allValues s)
        \<and> quizA \<noteq> quizB \<and> 4 \<le> sharedAnswers (questions quizA) (questions quizB)
        \<longrightarrow> \<not> (quizA \<in> set (allValues (snd (removeDuplicateQuizzes collate s)))
                \<and> quizB \<in> set (allValues (snd (removeDuplicateQuizzes collate s)))))
     \<and> (quizCollection s = [(id' quizA, quizA), (id' quizB, quizB)] \<and> id' quizA \<noteq> id' quizB
        \<and> 4 \<le> sharedAnswers (questions quizA) (questions quizB)
        \<longrightarrow> removeDuplicateQuizzes collate s = (1, s\<lparr>quizCollection := [(id' quizA, quizA)]\<rparr>)
          \<or> removeDuplicateQuizzes collate s = (1, s\<lparr>quizCollection := [(id' quizB, quizB)]\<rparr>))
     \<and> (quizCollection s = [(id' quizA, quizA), (id' quizB, quizB)] \<and> id' quizA \<noteq> id' quizB
        \<and> matchCount (questions quizA) (questions quizB) < 4
        \<and> \<not> (truthy_string (uniqueId quizA) \<and> truthy_string (uniqueId quizB))
        \<and> (\<not> truthy_string (uniqueId quizA) \<and> \<not> truthy_string (uniqueId quizB)
            \<longrightarrow> createContentHash collate quizA \<noteq> createContentHash collate quizB)
        \<longrightarrow> removeDuplicateQuizzes collate s = (0, s))"
proof (intro impI conjI)
  assume a: "normalized (title quizA) = normalized (title quizB)
   \<and> length (questions quizA) = 5 \<and> length (questions quizB) = 5
   \<and> \<not> distinctUniqueIds quizA quizB"
  then have t: "normalized (title quizA) = normalized (title quizB)"
    and l: "length (questions quizA) = 5" "length (questions quizB) = 5"
    and d: "\<not> distinctUniqueIds quizA quizB"
    by blast+
  have sim: "similarQuestions quizA quizB \<and> similarQuestions quizB quizA"
    if "4 \<le> sharedAnswers (questions quizA) (questions quizB)"
  proof
    from that sharedAnswers_le_matchCount [of "questions quizA" "questions quizB"]
    have "4 \<le> matchCount (questions quizA) (questions quizB)" by simp
    with l show "similarQuestions quizA quizB" by (simp add: similarQuestions_five)
    from that have "4 \<le> sharedAnswers (questions quizB) (questions quizA)"
      by (simp only: sharedAnswers_commute)
    with sharedAnswers_le_matchCount [of "questions quizB" "questions quizA"]
    have "4 \<le> matchCount (questions quizB) (questions quizA)" by simp
    with l show "similarQuestions quizB quizA" by (simp add: similarQuestions_five)
  qed
  {
    assume b: "wf_collection (quizCollection s) \<and> quizA \<in> set (allValues s)
        \<and> quizB \<in> set (allValues s)
        \<and> quizA \<noteq> quizB \<and> 4 \<le> sharedAnswers (questions quizA) (questions quizB)"
    then have w: "wf_collection (quizCollection s)" and n: "quizA \<noteq> quizB"
      and h: "4 \<le> sharedAnswers (questions quizA) (questions quizB)" by blast+
    from d have d': "\<not> distinctUniqueIds quizB quizA" by (auto simp add: distinctUniqueIds_def)
    from sim [OF h] d d' have "isDuplicatePair quizA quizB" "isDuplicatePair quizB quizA"
      by (simp_all add: isDuplicatePair_def)
    with w t show "\<not> (quizA \<in> set (allValues (snd (removeDuplicateQuizzes collate s)))
                \<and> quizB \<in> set (allValues (snd (removeDuplicateQuizzes collate s))))"
      using n by (rule pair_not_both_kept)
  }
  {
    assume b: "quizCollection s = [(id' quizA, quizA), (id' quizB, quizB)] \<and> id' quizA \<noteq> id' quizB
        \<and> 4 \<le> sharedAnswers (questions quizA) (questions quizB)"
    then have c: "quizCollection s = [(id' quizA, quizA), (id' quizB, quizB)]"
      and i: "id' quizA \<noteq> id' quizB"
      and h: "4 \<le> sharedAnswers (questions quizA) (questions quizB)" by blast+
    from sim [OF h] have "similarQuestions quizA quizB" ..
    with i t d have "duplicatesRemoved (findDuplicates collate [quizA, quizB]) = [quizA]
       \<or> duplicatesRemoved (findDuplicates collate [quizA, quizB]) = [quizB]"
      by (rule pair_removed)
    then show "removeDuplicateQuizzes collate s = (1, s\<lparr>quizCollection := [(id' quizA, quizA)]\<rparr>)
          \<or> removeDuplicateQuizzes collate s = (1, s\<lparr>quizCollection := [(id' quizB, quizB)]\<rparr>)"
      using removeDuplicateQuizzes_pair [OF c i, of collate] by blast
  }
  {
    assume b: "quizCollection s = [(id' quizA, quizA), (id' quizB, quizB)] \<and> id' quizA \<noteq> id' quizB
        \<and> matchCount (questions quizA) (questions quizB) < 4
        \<and> \<not> (truthy_string (uniqueId quizA) \<and> truthy_string (uniqueId quizB))
        \<and> (\<not> truthy_string (uniqueId quizA) \<and> \<not> truthy_string (uniqueId quizB)
            \<longrightarrow> createContentHash collate quizA \<noteq> createContentHash collate quizB)"
    then have c: "quizCollection s = [(id' quizA, quizA), (id' quizB, quizB)]"
      and i: "id' quizA \<noteq> id' quizB"
      and m: "matchCount (questions quizA) (questions quizB) < 4"
      and n: "\<not> (truthy_string (uniqueId quizA) \<and> truthy_string (uniqueId quizB))"
      and h: "\<not> truthy_string (uniqueId quizA) \<and> \<not> truthy_string (uniqueId quizB)
            \<longrightarrow> createContentHash collate quizA \<noteq> createContentHash collate quizB"
      by blast+
    from c have v: "allValues s = [quizA, quizB]" by (simp add: allValues_def)
    from m l have "\<not> similarQuestions quizA quizB" by (simp add: similarQuestions_five)
    with i t n h have "duplicatesRemoved (findDuplicates collate [quizA, quizB]) = []"
      by (rule pair_kept)
    then have "duplicatesRemoved (findDuplicates collate (allValues s)) = []" unfolding v .
    then show "removeDuplicateQuizzes collate s = (0, s)" by (rule removeDuplicateQuizzes_none)
  }
qed

theorem fuzzy_match_pair_witness:
  "((exampleQuiz 1 None ''Math Quiz''
       (map2 exampleQuestion [''p1'', ''p2'', ''p3'', ''p4'', ''p5'']
          [''a1'', ''a2'', ''a3'', ''a4'', ''a5'']) 1 5
      \<in> set (allValues (snd (removeDuplicateQuizzes (\<lambda>x. x)
          \<lparr>quizCollection =
             [(1, exampleQuiz 1 None ''Math Quiz''
                   (map2 exampleQuestion [''p1'', ''p2'', ''p3'', ''p4'', ''p5'']
                      [''a1'', ''a2'', ''a3'', ''a4'', ''a5'']) 1 5),
              (2, exampleQuiz 2 None ''Math Quiz''
                   (map2 exampleQuestion [''r1'', ''r2'', ''r3'', ''r4'', ''r5'']
                      [''a1'', ''a2'', ''a3'', ''a4'', ''b5'']) 1 5),
              (3, exampleQuiz 3 None ''History'' [] 1 5)],
            quizCurrentId = 4\<rparr>)))
     \<and> exampleQuiz 2 None ''Math Quiz''
       (map2 exampleQuestion [''r1'', ''r2'', ''r3'', ''r4'', ''r5'']
          [''a1'', ''a2'', ''a3'', ''a4'', ''b5'']) 1 5
      \<in> set (allValues (snd (removeDuplicateQuizzes (\<lambda>x. x)
          \<lparr>quizCollection =
             [(1, exampleQuiz 1 None ''Math Quiz''
                   (map2 exampleQuestion [''p1'', ''p2'', ''p3'', ''p4'', ''p5'']
                      [''a1'', ''a2'', ''a3'', ''a4'', ''a5'']) 1 5),
              (2, exampleQuiz 2 None ''Math Quiz''
                   (map2 exampleQuestion [''r1'', ''r2'', ''r3'', ''r4'', ''r5'']
                      [''a1'', ''a2'', ''a3'', ''a4'', ''b5'']) 1 5),
              (3, exampleQuiz 3 None ''History'' [] 1 5)],
            quizCurrentId = 4\<rparr>)))) = False)
   \<and> (removeDuplicateQuizzes (\<lambda>x. x)
      \<lparr>quizCollection =
         [(1, exampleQuiz 1 None ''Math Quiz''
               (map2 exampleQuestion [''p1'', ''p2'', ''p3'', ''p4'', ''p5'']
                  [''a1'', ''a2'', ''a3'', ''a4'', ''a5'']) 1 5),
          (2, exampleQuiz 2 None ''Math Quiz''
               (map2 exampleQuestion [''r1'', ''r2'', ''r3'', ''r4'', ''r5'']
                  [''a1'', ''a2'', ''a3'', ''a4'', ''b5'']) 1 5)],
        quizCurrentId = 3\<rparr>
    = (1, \<lparr>quizCollection =
         [(2, exampleQuiz 2 None ''Math Quiz''
               (map2 exampleQuestion [''r1'', ''r2'', ''r3'', ''r4'', ''r5'']
                  [''a1'', ''a2'', ''a3'', ''a4'', ''b5'']) 1 5)],
        quizCurrentId = 3\<rparr>))
   \<and> (removeDuplicateQuizzes (\<lambda>x. x)
      \<lparr>quizCollection =
         [(1, exampleQuiz 1 None ''Math Quiz''
               (map2 exampleQuestion [''p1'', ''p2'', ''p3'', ''p4'', ''p5'']
                  [''a1'', ''a2'', ''a3'', ''a4'', ''a5'']) 1 5),
          (2, exampleQuiz 2 None ''Math Quiz''
               (map2 exampleQuestion [''r1'', ''r2'', ''r3'', ''r4'', ''r5'']
                  [''a1'', ''a2'', ''a3'', ''b4'', ''b5'']) 1 5)],
        quizCurrentId = 3\<rparr>
    = (0, \<lparr>quizCollection =
         [(1, exampleQuiz 1 None ''Math Quiz''
               (map2 exampleQuestion [''p1'', ''p2'', ''p3'', ''p4'', ''p5'']
                  [''a1'', ''a2'', ''a3'', ''a4'', ''a5'']) 1 5),
          (2, exampleQuiz 2 None ''Math Quiz''
               (map2 exampleQuestion [''r1'', ''r2'', ''r3'', ''r4'', ''r5'']
                  [''a1'', ''a2'', ''a3'', ''b4'', ''b5'']) 1 5)],
        quizCurrentId = 3\<rparr>))"
proof -
  let ?A = "exampleQuiz 1 None ''Math Quiz''
               (map2 exampleQuestion [''p1'', ''p2'', ''p3'', ''p4'', ''p5'']
                  [''a1'', ''a2'', ''a3'', ''a4'', ''a5'']) 1 5"
  let ?B = "exampleQuiz 2 None ''Math Quiz''
               (map2 exampleQuestion [''r1'', ''r2'', ''r3'', ''r4'', ''r5'']
                  [''a1'', ''a2'', ''a3'', ''a4'', ''b5'']) 1 5"
  let ?C = "exampleQuiz 2 None ''Math Quiz''
               (map2 exampleQuestion [''r1'', ''r2'', ''r3'', ''r4'', ''r5'']
                  [''a1'', ''a2'', ''a3'', ''b4'', ''b5'']) 1 5"
  let ?s = "\<lparr>quizCollection = [(1, ?A), (2, ?B)], quizCurrentId = 3\<rparr>"
  let ?s' = "\<lparr>quizCollection = [(1, ?A), (2, ?C)], quizCurrentId = 3\<rparr>"
  let ?s3 = "\<lparr>quizCollection = [(1, ?A), (2, ?B), (3, exampleQuiz 3 None ''History'' [] 1 5)],
      quizCurrentId = 4\<rparr>"
  have i: "id' ?A = 1" "id' ?B = 2" "id' ?C = 2" by (simp_all add: exampleQuiz_def)
  have g: "normalized (title ?A) = normalized (title ?B)
   \<and> length (questions ?A) = 5 \<and> length (questions ?B) = 5
   \<and> \<not> distinctUniqueIds ?A ?B" by code_simp
  have g': "normalized (title ?A) = normalized (title ?C)
   \<and> length (questions ?A) = 5 \<and> length (questions ?C) = 5
   \<and> \<not> distinctUniqueIds ?A ?C" by code_simp
  have h0: "wf_collection (quizCollection ?s3) \<and> ?A \<in> set (allValues ?s3) \<and> ?B \<in> set (allValues ?s3)
        \<and> ?A \<noteq> ?B \<and> 4 \<le> sharedAnswers (questions ?A) (questions ?B)" by code_simp
  have h: "quizCollection ?s = [(id' ?A, ?A), (id' ?B, ?B)] \<and> id' ?A \<noteq> id' ?B
        \<and> 4 \<le> sharedAnswers (questions ?A) (questions ?B)" by code_simp
  have h': "quizCollection ?s' = [(id' ?A, ?A), (id' ?C, ?C)] \<and> id' ?A \<noteq> id' ?C
        \<and> matchCount (questions ?A) (questions ?C) < 4
        \<and> \<not> (truthy_string (uniqueId ?A) \<and> truthy_string (uniqueId ?C))
        \<and> (\<not> truthy_string (uniqueId ?A) \<and> \<not> truthy_string (uniqueId ?C)
            \<longrightarrow> createContentHash (\<lambda>x. x) ?A \<noteq> createContentHash (\<lambda>x. x) ?C)" by code_simp
  from fuzzy_match_pair [of ?A ?B ?s3 "\<lambda>x. x"] g h0
  have r0: "(?A \<in> set (allValues (snd (removeDuplicateQuizzes (\<lambda>x. x) ?s3)))
     \<and> ?B \<in> set (allValues (snd (removeDuplicateQuizzes (\<lambda>x. x) ?s3)))) = False"
    by blast
  from fuzzy_match_pair [of ?A ?B ?s "\<lambda>x. x"] g h
  have "removeDuplicateQuizzes (\<lambda>x. x) ?s = (1, ?s\<lparr>quizCollection := [(id' ?A, ?A)]\<rparr>)
          \<or> removeDuplicateQuizzes (\<lambda>x. x) ?s = (1, ?s\<lparr>quizCollection := [(id' ?B, ?B)]\<rparr>)"
    by blast
  moreover have "removeDuplicateQuizzes (\<lambda>x. x) ?s \<noteq> (1, ?s\<lparr>quizCollection := [(id' ?A, ?A)]\<rparr>)"
    by code_simp
  ultimately have r1: "removeDuplicateQuizzes (\<lambda>x. x) ?s = (1, ?s\<lparr>quizCollection := [(id' ?B, ?B)]\<rparr>)"
    by blast
  from r1 have r1': "removeDuplicateQuizzes (\<lambda>x. x) ?s
      = (1, \<lparr>quizCollection = [(2, ?B)], quizCurrentId = 3\<rparr>)"
    unfolding i by simp
  from fuzzy_match_pair [of ?A ?C ?s' "\<lambda>x. x"] g' h'
  have r2: "removeDuplicateQuizzes (\<lambda>x. x) ?s' = (0, ?s')" by blast
  from r0 r1' r2 show ?thesis by (intro conjI)
qed

text \<open>
  Claim C1 as stated fails in its second half: line 263 takes two questions for a match
  when their prompts agree as well. The two records below have the same five prompts and
  agree on the correct answer of three questions only, and the first record is removed.
\<close>

theorem fuzzy_match_same_prompts_counterexample:
  "sharedAnswers
     (map2 exampleQuestion [''p1'', ''p2'', ''p3'', ''p4'', ''p5''] [''a1'', ''a2'', ''a3'', ''a4'', ''a5''])
     (map2 exampleQuestion [''p1'', ''p2'', ''p3'', ''p4'', ''p5''] [''a1'', ''a2'', ''a3'', ''b4'', ''b5''])
     = 3
   \<and> removeDuplicateQuizzes (\<lambda>x. x)
      \<lparr>quizCollection =
         [(1, exampleQuiz 1 None ''Math Quiz''
               (map2 exampleQuestion [''p1'', ''p2'', ''p3'', ''p4'', ''p5'']
                  [''a1'', ''a2'', ''a3'', ''a4'', ''a5'']) 1 5),
          (2, exampleQuiz 2 None ''Math Quiz''
               (map2 exampleQuestion [''p1'', ''p2'', ''p3'', ''p4'', ''p5'']
                  [''a1'', ''a2'', ''a3'', ''b4'', ''b5'']) 1 5)],
        quizCurrentId = 3\<rparr>
    = (1, \<lparr>quizCollection =
         [(2, exampleQuiz 2 None ''Math Quiz''
               (map2 exampleQuestion [''p1'', ''p2'', ''p3'', ''p4'', ''p5'']
                  [''a1'', ''a2'', ''a3'', ''b4'', ''b5'']) 1 5)],
        quizCurrentId = 3\<rparr>)"
  by code_simp

text \<open>
  With a third similar record in the storage both records of the pair can be removed: the
  first loses against the second, and the second against the third.
\<close>

lemma fuzzy_match_third_record:
  "allValues (snd (removeDuplicateQuizzes (\<lambda>x. x)
      \<lparr>quizCollection =
         [(1, exampleQuiz 1 None ''Math Quiz''
               (map2 exampleQuestion [''p1'', ''p2'', ''p3'', ''p4'', ''p5'']
                  [''a1'', ''a2'', ''a3'', ''a4'', ''a5'']) 1 5),
          (2, exampleQuiz 2 None ''Math Quiz''
               (map2 exampleQuestion [''r1'', ''r2'', ''r3'', ''r4'', ''r5'']
                  [''a1'', ''a2'', ''a3'', ''a4'', ''b5'']) 1 5),
          (3, exampleQuiz 3 None ''Math Quiz''
               (map2 exampleQuestion [''t1'', ''t2'', ''t3'', ''t4'', ''t5'']
                  [''a1'', ''a2'', ''a3'', ''a4'', ''c5'']) 1 5)],
        quizCurrentId = 4\<rparr>))
    = [exampleQuiz 3 None ''Math Quiz''
               (map2 exampleQuestion [''t1'', ''t2'', ''t3'', ''t4'', ''t5'']
                  [''a1'', ''a2'', ''a3'', ''a4'', ''c5'']) 1 5]"
  by code_simp

text \<open>
  The normalization on code units outside ASCII: the capital \<^verbatim>\<open>U+00C9\<close> is lowered to
  \<^verbatim>\<open>U+00E9\<close> and the no-break space is trimmed, so two titles that differ in this way only
  are the same title for the duplicate removal, and the second of the two records below
  is kept alone.
\<close>

lemma normalized_latin1:
  "normalized [CHR 0xA0, CHR 0xC9, CHR ''T'', CHR 0xE9, CHR 0x20] = [CHR 0xE9, CHR ''t'', CHR 0xE9]"
  by code_simp

lemma removeDuplicateQuizzes_latin1_titles:
  "removeDuplicateQuizzes (\<lambda>x. x)
     \<lparr>quizCollection =
        [(1, exampleQuiz 1 (Some ''u1'') [CHR 0xC9, CHR ''t'', CHR 0xE9] [] 1 5),
         (2, exampleQuiz 2 None [CHR 0xE9, CHR ''t'', CHR 0xE9] [] 1 5)],
       quizCurrentId = 3\<rparr>
     = (1, \<lparr>quizCollection = [(2, exampleQuiz 2 None [CHR 0xE9, CHR ''t'', CHR 0xE9] [] 1 5)],
           quizCurrentId = 3\<rparr>)"
  by code_simp

end
